theory Spec2Isabelle
  imports Main "HOL-Library.Char_ord" "HOL-Library.List_Lexorder"
begin

section \<open>Python values and exceptions\<close>

text \<open>
  Strings are lists of code points below 256 (the type \<^typ>\<open>string\<close>); on these the model
  follows Python's \<^verbatim>\<open>str\<close> exactly, and the order on strings is the lexicographic order
  by code point that Python's comparison of two \<^verbatim>\<open>str\<close> uses. Python's unbounded integers
  are \<^typ>\<open>int\<close>.

  A raised exception is a value of \<open>exn\<close>, and a computation that may raise returns
  \<open>exn + 'a\<close> with \<open>Inl\<close> the exception.
\<close>

datatype exn =
    KeyError string
  | TypeError string
  | OverflowError string
  | IntegrityError string

definition bind_exn :: "exn + 'a \<Rightarrow> ('a \<Rightarrow> exn + 'b) \<Rightarrow> exn + 'b" where
  "bind_exn m f = (case m of Inl e \<Rightarrow> Inl e | Inr x \<Rightarrow> f x)"

text \<open>\<^verbatim>\<open>d[k]\<close> on a dict whose entry for \<open>k\<close> is \<open>v\<close> (\<open>None\<close>: the key is absent).\<close>

definition getitem :: "string \<Rightarrow> 'a option \<Rightarrow> exn + 'a" where
  "getitem k v = (case v of None \<Rightarrow> Inl (KeyError k) | Some x \<Rightarrow> Inr x)"

text \<open>\<^verbatim>\<open>d.get(k, default)\<close>.\<close>

definition get_default :: "'a option \<Rightarrow> 'a \<Rightarrow> 'a" where
  "get_default v d = (case v of None \<Rightarrow> d | Some x \<Rightarrow> x)"

text \<open>
  The values a metadata entry can hold: what \<^verbatim>\<open>json\<close> can serialize (without floats),
  and \<open>PObject\<close> for any other object (a set, bytes, a datetime), which it cannot.
\<close>

datatype pyval =
    PNone
  | PBool bool
  | PInt int
  | PStr string
  | PList "pyval list"
  | PDict "(string \<times> pyval) list"
  | PObject nat

subsection \<open>Text of numbers\<close>

definition digit_char :: "nat \<Rightarrow> char" where
  "digit_char n = ''0123456789abcdef'' ! n"

function dec_str :: "nat \<Rightarrow> string" where
  "dec_str n = (if n < 10 then [digit_char n] else dec_str (n div 10) @ [digit_char (n mod 10)])"
  by pat_completeness auto
termination
  by (relation "measure id") auto

declare dec_str.simps [simp del]

function hex_str :: "nat \<Rightarrow> string" where
  "hex_str n = (if n < 16 then [digit_char n] else hex_str (n div 16) @ [digit_char (n mod 16)])"
  by pat_completeness auto
termination
  by (relation "measure id") auto

declare hex_str.simps [simp del]

text \<open>\<^verbatim>\<open>str(i)\<close> of an integer.\<close>

definition int_str :: "int \<Rightarrow> string" where
  "int_str i = (if i < 0 then CHR ''-'' # dec_str (nat (- i)) else dec_str (nat i))"

text \<open>\<^verbatim>\<open>sep.join(parts)\<close>.\<close>

fun join :: "string \<Rightarrow> string list \<Rightarrow> string" where
  "join sep [] = []"
| "join sep [p] = p"
| "join sep (p # q # ps) = p @ sep @ join sep (q # ps)"

subsection \<open>json.dumps\<close>

text \<open>
  \<^verbatim>\<open>json.dumps\<close> with its default arguments: \<^verbatim>\<open>ensure_ascii\<close> escapes the quote, the
  backslash and every character outside the printable ASCII range, items are separated by
  \<^verbatim>\<open>", "\<close> and keys by \<^verbatim>\<open>": "\<close>, and an object of any other type raises TypeError.
\<close>

definition printable_ascii :: string where
  "printable_ascii =
     '' !#$%&'' @ [CHR 0x27] @ ''()*+,-./0123456789:;<=>?@ABCDEFGHIJKLMNOPQRSTUVWXYZ[]^_`abcdefghijklmnopqrstuvwxyz{|}~''"

definition json_escape_char :: "char \<Rightarrow> string" where
  "json_escape_char c =
     (if c = CHR 0x22 then [CHR 0x5C, CHR 0x22]
      else if c = CHR 0x5C then [CHR 0x5C, CHR 0x5C]
      else if c = CHR 0x0A then [CHR 0x5C, CHR ''n'']
      else if c = CHR 0x0D then [CHR 0x5C, CHR ''r'']
      else if c = CHR 0x09 then [CHR 0x5C, CHR ''t'']
      else if c = CHR 0x08 then [CHR 0x5C, CHR ''b'']
      else if c = CHR 0x0C then [CHR 0x5C, CHR ''f'']
      else if c \<in> set printable_ascii then [c]
      else [CHR 0x5C, CHR ''u'', CHR ''0'', CHR ''0'',
            digit_char (of_char c div 16), digit_char (of_char c mod 16)])"

definition json_string :: "string \<Rightarrow> string" where
  "json_string s = [CHR 0x22] @ concat (map json_escape_char s) @ [CHR 0x22]"

fun sequence_exn :: "(exn + 'a) list \<Rightarrow> exn + 'a list" where
  "sequence_exn [] = Inr []"
| "sequence_exn (m # ms) =
     (case m of Inl e \<Rightarrow> Inl e
      | Inr x \<Rightarrow> (case sequence_exn ms of Inl e \<Rightarrow> Inl e | Inr xs \<Rightarrow> Inr (x # xs)))"

fun json_dumps :: "pyval \<Rightarrow> exn + string" where
  "json_dumps PNone = Inr ''null''"
| "json_dumps (PBool b) = Inr (if b then ''true'' else ''false'')"
| "json_dumps (PInt i) = Inr (int_str i)"
| "json_dumps (PStr s) = Inr (json_string s)"
| "json_dumps (PList xs) =
     (case sequence_exn (map json_dumps xs) of
        Inl e \<Rightarrow> Inl e
      | Inr ss \<Rightarrow> Inr (''['' @ join '', '' ss @ '']''))"
| "json_dumps (PDict kvs) =
     (case sequence_exn (map (\<lambda>kv. case json_dumps (snd kv) of
                                      Inl e \<Rightarrow> Inl e
                                    | Inr s \<Rightarrow> Inr (json_string (fst kv) @ '': '' @ s)) kvs) of
        Inl e \<Rightarrow> Inl e
      | Inr ss \<Rightarrow> Inr (''{'' @ join '', '' ss @ ''}''))"
| "json_dumps (PObject n) = Inl (TypeError ''Object is not JSON serializable'')"

section \<open>Strings as Python handles them\<close>

text \<open>The code points below 256 on which \<^verbatim>\<open>str.isspace\<close> holds; \<^verbatim>\<open>strip()\<close> removes them.\<close>

definition whitespace :: string where
  "whitespace = [CHR 0x09, CHR 0x0A, CHR 0x0B, CHR 0x0C, CHR 0x0D, CHR 0x1C, CHR 0x1D,
                 CHR 0x1E, CHR 0x1F, CHR 0x20, CHR 0x85, CHR 0xA0]"

definition isspace :: "char \<Rightarrow> bool" where
  "isspace c \<longleftrightarrow> c \<in> set whitespace"

definition strip :: "string \<Rightarrow> string" where
  "strip s = rev (dropWhile isspace (rev (dropWhile isspace s)))"

text \<open>
  \<^verbatim>\<open>str.lower\<close>: the code points below 256 that it changes are A to Z and the Latin-1
  capitals 0xC0 to 0xDE without the multiplication sign 0xD7; each moves up by 32.
\<close>

definition upper_chars :: string where
  "upper_chars = ''ABCDEFGHIJKLMNOPQRSTUVWXYZ'' @
     [CHR 0xC0, CHR 0xC1, CHR 0xC2, CHR 0xC3, CHR 0xC4, CHR 0xC5, CHR 0xC6, CHR 0xC7,
      CHR 0xC8, CHR 0xC9, CHR 0xCA, CHR 0xCB, CHR 0xCC, CHR 0xCD, CHR 0xCE, CHR 0xCF,
      CHR 0xD0, CHR 0xD1, CHR 0xD2, CHR 0xD3, CHR 0xD4, CHR 0xD5, CHR 0xD6,
      CHR 0xD8, CHR 0xD9, CHR 0xDA, CHR 0xDB, CHR 0xDC, CHR 0xDD, CHR 0xDE]"

definition lower_chars :: string where
  "lower_chars = ''abcdefghijklmnopqrstuvwxyz'' @
     [CHR 0xE0, CHR 0xE1, CHR 0xE2, CHR 0xE3, CHR 0xE4, CHR 0xE5, CHR 0xE6, CHR 0xE7,
      CHR 0xE8, CHR 0xE9, CHR 0xEA, CHR 0xEB, CHR 0xEC, CHR 0xED, CHR 0xEE, CHR 0xEF,
      CHR 0xF0, CHR 0xF1, CHR 0xF2, CHR 0xF3, CHR 0xF4, CHR 0xF5, CHR 0xF6,
      CHR 0xF8, CHR 0xF9, CHR 0xFA, CHR 0xFB, CHR 0xFC, CHR 0xFD, CHR 0xFE]"

definition lower_char :: "char \<Rightarrow> char" where
  "lower_char c = (case map_of (zip upper_chars lower_chars) c of None \<Rightarrow> c | Some d \<Rightarrow> d)"

definition lower :: "string \<Rightarrow> string" where
  "lower s = map lower_char s"

text \<open>\<^verbatim>\<open>s.startswith(p)\<close>.\<close>

definition startswith :: "string \<Rightarrow> string \<Rightarrow> bool" where
  "startswith p s \<longleftrightarrow> take (length p) s = p"

text \<open>\<^verbatim>\<open>s.split(sep)\<close> for a separator of one character.\<close>

fun split :: "char \<Rightarrow> string \<Rightarrow> string list" where
  "split sep [] = [[]]"
| "split sep (c # cs) =
     (if c = sep then [] # split sep cs
      else (case split sep cs of [] \<Rightarrow> [[c]] | p # ps \<Rightarrow> (c # p) # ps))"

definition digits :: string where
  "digits = ''0123456789''"

definition hexdigits :: string where
  "hexdigits = ''0123456789abcdefABCDEF''"

definition ascii_letters :: string where
  "ascii_letters = ''abcdefghijklmnopqrstuvwxyzABCDEFGHIJKLMNOPQRSTUVWXYZ''"

text \<open>The value of a digit in \<^verbatim>\<open>int(s, base)\<close>.\<close>

definition digit_value :: "char \<Rightarrow> nat" where
  "digit_value c =
     (case map_of (zip hexdigits [0, 1, 2, 3, 4, 5, 6, 7, 8, 9, 10, 11, 12, 13, 14, 15,
                                  10, 11, 12, 13, 14, 15]) c of
        None \<Rightarrow> 0 | Some n \<Rightarrow> n)"

definition of_digits :: "nat \<Rightarrow> string \<Rightarrow> nat" where
  "of_digits base s = foldl (\<lambda>a c. a * base + digit_value c) 0 s"

section \<open>The module ipaddress of the standard library\<close>

text \<open>
  \<^verbatim>\<open>ipaddress.ip_address\<close> and \<^verbatim>\<open>str\<close> of its result, as CPython 3.11 defines them.
  The integer of an address is kept as its bytes (four for IPv4) or its 16-bit groups (eight
  for IPv6), most significant first; \<open>None\<close> stands for the ValueError.
\<close>

datatype ip_addr =
    IPv4Address "nat list"
  | IPv6Address "nat list" "string option"

definition parse_octet :: "string \<Rightarrow> nat option" where
  "parse_octet octet_str =
     (if octet_str = [] then None
      else if \<not> list_all (\<lambda>c. c \<in> set digits) octet_str then None
      else if length octet_str > 3 then None
      else if octet_str \<noteq> ''0'' \<and> hd octet_str = CHR ''0'' then None
      else if of_digits 10 octet_str > 255 then None
      else Some (of_digits 10 octet_str))"

definition ipv4_int_from_string :: "string \<Rightarrow> nat list option" where
  "ipv4_int_from_string ip_str =
     (if ip_str = [] then None
      else let octets = split (CHR ''.'') ip_str in
        if length octets \<noteq> 4 then None
        else those (map parse_octet octets))"

definition ipv4_address :: "string \<Rightarrow> nat list option" where
  "ipv4_address addr_str =
     (if CHR ''/'' \<in> set addr_str then None else ipv4_int_from_string addr_str)"

definition parse_hextet :: "string \<Rightarrow> nat option" where
  "parse_hextet hextet_str =
     (if \<not> list_all (\<lambda>c. c \<in> set hexdigits) hextet_str then None
      else if length hextet_str > 4 then None
      else if hextet_str = [] then None
      else Some (of_digits 16 hextet_str))"

text \<open>
  The parts after an IPv4-style suffix, if there is one, has been turned into two hextets.
\<close>

definition expand_ipv4_suffix :: "string list \<Rightarrow> string list option" where
  "expand_ipv4_suffix parts =
     (if CHR ''.'' \<in> set (last parts) then
        (case ipv4_address (last parts) of
           Some [a, b, c, d] \<Rightarrow>
             Some (butlast parts @ [hex_str (a * 256 + b), hex_str (c * 256 + d)])
         | _ \<Rightarrow> None)
      else Some parts)"

text \<open>
  The hextets of the parts: the search for the one \<^verbatim>\<open>::\<close>, the count of the parts above
  and below it, and the parse of these parts around the zeros it stands for.
\<close>

definition hextets_of_parts :: "string list \<Rightarrow> nat list option" where
  "hextets_of_parts parts =
     (if length parts > 9 then None
      else case filter (\<lambda>i. parts ! i = []) [1 ..< length parts - 1] of
        [] \<Rightarrow>
          if length parts \<noteq> 8 then None
          else if hd parts = [] then None
          else if last parts = [] then None
          else those (map parse_hextet parts)
      | [skip_index] \<Rightarrow>
          if hd parts = [] \<and> skip_index - 1 \<noteq> 0 then None
          else if last parts = [] \<and> length parts - skip_index - 1 - 1 \<noteq> 0 then None
          else
            let parts_hi = (if hd parts = [] then skip_index - 1 else skip_index);
                parts_lo = (if last parts = [] then length parts - skip_index - 1 - 1
                            else length parts - skip_index - 1)
            in if 8 < parts_hi + parts_lo + 1 then None
               else
                 (case (those (map parse_hextet (take parts_hi parts)),
                        those (map parse_hextet (drop (length parts - parts_lo) parts))) of
                    (Some hi, Some lo) \<Rightarrow> Some (hi @ replicate (8 - (parts_hi + parts_lo)) 0 @ lo)
                  | _ \<Rightarrow> None)
      | _ \<Rightarrow> None)"

definition ipv6_int_from_string :: "string \<Rightarrow> nat list option" where
  "ipv6_int_from_string ip_str =
     (if ip_str = [] then None
      else let parts = split (CHR '':'') ip_str in
        if length parts < 3 then None
        else (case expand_ipv4_suffix parts of
                None \<Rightarrow> None
              | Some parts' \<Rightarrow> hextets_of_parts parts'))"

text \<open>\<^verbatim>\<open>_split_scope_id\<close>: the text before the first \<^verbatim>\<open>%\<close> and the scope id after it.\<close>

definition split_scope_id :: "string \<Rightarrow> (string \<times> string option) option" where
  "split_scope_id ip_str =
     (let addr = takeWhile (\<lambda>c. c \<noteq> CHR ''%'') ip_str;
          rest = dropWhile (\<lambda>c. c \<noteq> CHR ''%'') ip_str
      in if rest = [] then Some (addr, None)
         else if tl rest = [] \<or> CHR ''%'' \<in> set (tl rest) then None
         else Some (addr, Some (tl rest)))"

definition ipv6_address :: "string \<Rightarrow> ip_addr option" where
  "ipv6_address addr_str =
     (if CHR ''/'' \<in> set addr_str then None
      else case split_scope_id addr_str of
        None \<Rightarrow> None
      | Some (addr, scope_id) \<Rightarrow>
          (case ipv6_int_from_string addr of
             None \<Rightarrow> None
           | Some hextets \<Rightarrow> Some (IPv6Address hextets scope_id)))"

definition ip_address :: "string \<Rightarrow> ip_addr option" where
  "ip_address address =
     (case ipv4_address address of
        Some octets \<Rightarrow> Some (IPv4Address octets)
      | None \<Rightarrow> ipv6_address address)"

text \<open>
  The loop of \<^verbatim>\<open>_compress_hextets\<close>: the state is the start and the length of the best run
  of \<^verbatim>\<open>'0'\<close> so far and of the current run (\<open>None\<close> is the start \<^verbatim>\<open>-1\<close>).
\<close>

fun compress_scan ::
  "string list \<Rightarrow> nat \<Rightarrow> nat option \<times> nat \<times> nat option \<times> nat \<Rightarrow>
   nat option \<times> nat \<times> nat option \<times> nat" where
  "compress_scan [] index st = st"
| "compress_scan (hextet # rest) index (best_start, best_len, start, len) =
     (if hextet = ''0'' then
        (let len' = len + 1;
             start' = (if start = None then Some index else start)
         in if len' > best_len
            then compress_scan rest (index + 1) (start', len', start', len')
            else compress_scan rest (index + 1) (best_start, best_len, start', len'))
      else compress_scan rest (index + 1) (best_start, best_len, None, 0))"

definition compress_hextets :: "string list \<Rightarrow> string list" where
  "compress_hextets hextets =
     (case compress_scan hextets 0 (None, 0, None, 0) of
        (Some best_start, best_len, _) \<Rightarrow>
          if best_len > 1 then
            (let best_end = best_start + best_len;
                 hextets1 = (if best_end = length hextets then hextets @ [[]] else hextets);
                 hextets2 = take best_start hextets1 @ [[]] @ drop best_end hextets1
             in if best_start = 0 then [] # hextets2 else hextets2)
          else hextets
      | (None, _) \<Rightarrow> hextets)"

text \<open>\<^verbatim>\<open>str(address)\<close>.\<close>

fun ip_str :: "ip_addr \<Rightarrow> string" where
  "ip_str (IPv4Address octets) = join ''.'' (map dec_str octets)"
| "ip_str (IPv6Address hextets scope_id) =
     join '':'' (compress_hextets (map hex_str hextets)) @
     (case scope_id of None \<Rightarrow> [] | Some s \<Rightarrow> CHR ''%'' # s)"

section \<open>Type detection and normalization (normalization.py)\<close>

text \<open>
  \<^verbatim>\<open>re.compile(r'^[a-fA-F0-9]{n}$').match(value)\<close>; \<^verbatim>\<open>$\<close> also matches before a newline
  that ends the string.
\<close>

definition hash_pattern :: "nat \<Rightarrow> string \<Rightarrow> bool" where
  "hash_pattern n value \<longleftrightarrow>
     (length value = n \<and> list_all (\<lambda>c. c \<in> set hexdigits) value) \<or>
     (length value = Suc n \<and> list_all (\<lambda>c. c \<in> set hexdigits) (butlast value) \<and>
      last value = CHR 0x0A)"

definition is_ip :: "string \<Rightarrow> bool" where
  "is_ip value \<longleftrightarrow> ip_address (strip value) \<noteq> None"

definition is_hash :: "string \<Rightarrow> bool" where
  "is_hash value \<longleftrightarrow> list_ex (\<lambda>n. hash_pattern n (strip value)) [32, 40, 64]"

definition is_url :: "string \<Rightarrow> bool" where
  "is_url value \<longleftrightarrow> startswith ''http://'' (strip value) \<or> startswith ''https://'' (strip value)"

definition is_domain :: "string \<Rightarrow> bool" where
  "is_domain value =
     (let value = strip value in
      if is_url value \<or> is_ip value then False
      else CHR ''.'' \<in> set value \<and> length value \<le> 253 \<and> \<not> startswith ''.'' value)"

text \<open>
  The pattern of \<^verbatim>\<open>is_email\<close> without its anchors,
  \<^verbatim>\<open>[a-zA-Z0-9._%+-]+@[a-zA-Z0-9.-]+\.[a-zA-Z]{2,}\<close>, on a whole string: neither class has
  \<^verbatim>\<open>@\<close>, so the local part ends at the first \<^verbatim>\<open>@\<close>; the last class has no dot, so the dot
  before it is the last dot of the string.
\<close>

definition email_body :: "string \<Rightarrow> bool" where
  "email_body s =
     (let local = takeWhile (\<lambda>c. c \<noteq> CHR ''@'') s;
          rest = dropWhile (\<lambda>c. c \<noteq> CHR ''@'') s;
          dom = tl rest;
          tld = rev (takeWhile (\<lambda>c. c \<noteq> CHR ''.'') (rev dom));
          name = rev (tl (dropWhile (\<lambda>c. c \<noteq> CHR ''.'') (rev dom)))
      in local \<noteq> [] \<and> list_all (\<lambda>c. c \<in> set (ascii_letters @ digits @ ''._%+-'')) local \<and>
         rest \<noteq> [] \<and> CHR ''.'' \<in> set dom \<and>
         name \<noteq> [] \<and> list_all (\<lambda>c. c \<in> set (ascii_letters @ digits @ ''.-'')) name \<and>
         2 \<le> length tld \<and> list_all (\<lambda>c. c \<in> set ascii_letters) tld)"

definition is_email :: "string \<Rightarrow> bool" where
  "is_email value =
     (let value = strip value in
      email_body value \<or> (value \<noteq> [] \<and> last value = CHR 0x0A \<and> email_body (butlast value)))"

definition detect_type :: "string \<Rightarrow> string" where
  "detect_type value =
     (if value = [] then ''Unknown''
      else if is_ip value then ''IP''
      else if is_hash value then ''Hash''
      else if is_url value then ''URL''
      else if is_email value then ''Email''
      else if is_domain value then ''Domain''
      else ''Unknown'')"

definition normalize_indicator :: "string \<Rightarrow> string" where
  "normalize_indicator indicator =
     (let indicator = strip indicator in
      if is_url indicator then lower indicator
      else if is_domain indicator then lower indicator
      else if is_hash indicator then lower indicator
      else if is_ip indicator then
        (case ip_address indicator of Some a \<Rightarrow> ip_str a | None \<Rightarrow> indicator)
      else indicator)"

section \<open>The store (database.py)\<close>

text \<open>
  An IoC is the dict that \<^verbatim>\<open>IoCNormalizer.normalize_ioc\<close> builds. A key may be missing
  (\<open>None\<close>); an entry that is present holds a \<^verbatim>\<open>str\<close>, and \<^verbatim>\<open>metadata\<close> any value.
\<close>

record ioc =
  indicator :: "string option"
  type :: "string option"
  source :: "string option"
  confidence :: "string option"
  threat_level :: "string option"
  metadata :: "pyval option"
  date_collected :: "string option"

text \<open>
  A row of the table \<^verbatim>\<open>iocs\<close>. The column \<^verbatim>\<open>created_at\<close>, which SQLite fills and no
  statement of the program reads or writes, is left out. The table is the list of its rows
  in insertion order.
\<close>

record ioc_row =
  indicator_col :: string
  type_col :: string
  source_col :: string
  first_seen :: string
  last_seen :: string
  seen_count :: int
  confidence_col :: string
  threat_level_col :: string
  metadata_col :: string

text \<open>A row of the table \<^verbatim>\<open>collection_logs\<close> (the id is the position in the list).\<close>

record log_row =
  log_source :: string
  collection_time :: string
  iocs_processed :: int
  iocs_new :: int
  iocs_updated :: int
  log_errors :: "string option"
  log_status :: string

record database =
  iocs :: "ioc_row list"
  collection_logs :: "log_row list"

text \<open>\<^verbatim>\<open>setup_schema\<close> on a new file: both tables exist and are empty.\<close>

definition setup_schema :: database where
  "setup_schema = \<lparr>iocs = [], collection_logs = []\<rparr>"

record stats =
  processed :: int
  new :: int
  updated :: int
  errors :: int

definition matches :: "string \<Rightarrow> string \<Rightarrow> ioc_row \<Rightarrow> bool" where
  "matches i t r \<longleftrightarrow> indicator_col r = i \<and> type_col r = t"

text \<open>\<^verbatim>\<open>SELECT ... WHERE indicator=? AND type=?\<close> followed by \<^verbatim>\<open>fetchone()\<close>.\<close>

definition select_one :: "ioc_row list \<Rightarrow> string \<Rightarrow> string \<Rightarrow> ioc_row option" where
  "select_one rows i t = find (matches i t) rows"

text \<open>\<^verbatim>\<open>INSERT INTO iocs\<close>: the primary key (indicator, type) rejects a second row.\<close>

definition sql_insert :: "ioc_row \<Rightarrow> ioc_row list \<Rightarrow> exn + ioc_row list" where
  "sql_insert r rows =
     (if list_ex (matches (indicator_col r) (type_col r)) rows
      then Inl (IntegrityError ''UNIQUE constraint failed: iocs.indicator, iocs.type'')
      else Inr (rows @ [r]))"

text \<open>An integer parameter must fit SQLite's signed 64-bit INTEGER.\<close>

definition bind_integer :: "int \<Rightarrow> exn + int" where
  "bind_integer n =
     (if - (2 ^ 63) \<le> n \<and> n < 2 ^ 63 then Inr n
      else Inl (OverflowError ''Python int too large to convert to SQLite INTEGER''))"

text \<open>\<^verbatim>\<open>UPDATE iocs SET ... WHERE indicator=? AND type=?\<close>.\<close>

definition sql_update ::
  "string \<Rightarrow> int \<Rightarrow> string \<Rightarrow> string \<Rightarrow> string \<Rightarrow> string \<Rightarrow> string \<Rightarrow> string \<Rightarrow>
   ioc_row list \<Rightarrow> ioc_row list" where
  "sql_update new_last new_count s c th m i t rows =
     map (\<lambda>r. if matches i t r
               then r\<lparr>last_seen := new_last, seen_count := new_count, source_col := s,
                      confidence_col := c, threat_level_col := th, metadata_col := m\<rparr>
               else r) rows"

datatype branch = Inserted | Updated

text \<open>
  The body of the \<^verbatim>\<open>try\<close> for one record, after \<^verbatim>\<open>stats['processed'] += 1\<close>: the table
  it leaves and the branch it took, or the exception it raises (the table is then as before,
  every statement that can raise comes before the write).
\<close>

definition try_body :: "ioc_row list \<Rightarrow> ioc \<Rightarrow> exn + (ioc_row list \<times> branch)" where
  "try_body rows ioc =
     bind_exn (getitem ''indicator'' (indicator ioc)) (\<lambda>i.
     bind_exn (getitem ''type'' (type ioc)) (\<lambda>t.
       case select_one rows i t of
         None \<Rightarrow>
           bind_exn (getitem ''source'' (source ioc)) (\<lambda>s.
           bind_exn (getitem ''date_collected'' (date_collected ioc)) (\<lambda>d.
           bind_exn (json_dumps (get_default (metadata ioc) (PDict []))) (\<lambda>m.
           bind_exn (sql_insert
                       \<lparr>indicator_col = i, type_col = t, source_col = s,
                        first_seen = d, last_seen = d, seen_count = 1,
                        confidence_col = get_default (confidence ioc) ''medium'',
                        threat_level_col = get_default (threat_level ioc) ''medium'',
                        metadata_col = m\<rparr> rows) (\<lambda>rows'.
           Inr (rows', Inserted)))))
       | Some row \<Rightarrow>
           bind_exn (getitem ''date_collected'' (date_collected ioc)) (\<lambda>d.
           let new_last = max (last_seen row) d;
               new_count = seen_count row + 1
           in
           bind_exn (getitem ''source'' (source ioc)) (\<lambda>s.
           bind_exn (json_dumps (get_default (metadata ioc) (PDict []))) (\<lambda>m.
           bind_exn (bind_integer new_count) (\<lambda>n.
           Inr (sql_update new_last n s
                  (get_default (confidence ioc) ''medium'')
                  (get_default (threat_level ioc) ''medium'') m i t rows, Updated)))))))"

text \<open>
  The \<^verbatim>\<open>for\<close> loop. The handler counts the error and then builds its log message from
  \<^verbatim>\<open>ioc['indicator']\<close>; an exception raised there leaves the function, and the result is
  \<open>Inl\<close> with the table as the connection then sees it.
\<close>

fun upsert_loop ::
  "ioc_row list \<Rightarrow> stats \<Rightarrow> ioc list \<Rightarrow> (exn \<times> ioc_row list) + (ioc_row list \<times> stats)" where
  "upsert_loop rows st [] = Inr (rows, st)"
| "upsert_loop rows st (ioc # rest) =
     (let st1 = st\<lparr>processed := processed st + 1\<rparr> in
      case try_body rows ioc of
        Inr (rows', Inserted) \<Rightarrow> upsert_loop rows' (st1\<lparr>new := new st1 + 1\<rparr>) rest
      | Inr (rows', Updated) \<Rightarrow> upsert_loop rows' (st1\<lparr>updated := updated st1 + 1\<rparr>) rest
      | Inl e \<Rightarrow>
          (let st2 = st1\<lparr>errors := errors st1 + 1\<rparr> in
           case getitem ''indicator'' (indicator ioc) of
             Inl e' \<Rightarrow> Inl (e', rows)
           | Inr i \<Rightarrow> upsert_loop rows st2 rest))"

definition zero_stats :: stats where
  "zero_stats = \<lparr>processed = 0, new = 0, updated = 0, errors = 0\<rparr>"

definition insert_or_update_iocs ::
  "database \<Rightarrow> ioc list \<Rightarrow> (exn \<times> database) + (database \<times> stats)" where
  "insert_or_update_iocs db batch =
     (case upsert_loop (iocs db) zero_stats batch of
        Inl (e, rows) \<Rightarrow> Inl (e, db\<lparr>iocs := rows\<rparr>)
      | Inr (rows, st) \<Rightarrow> Inr (db\<lparr>iocs := rows\<rparr>, st))"

text \<open>\<^verbatim>\<open>log_collection\<close>; \<open>now\<close> is \<^verbatim>\<open>datetime.now().isoformat()\<close>.\<close>

definition log_collection ::
  "string \<Rightarrow> database \<Rightarrow> string \<Rightarrow> stats \<Rightarrow> string option \<Rightarrow> database" where
  "log_collection now db src st errs =
     db\<lparr>collection_logs := collection_logs db @
          [\<lparr>log_source = src, collection_time = now, iocs_processed = processed st,
            iocs_new = new st, iocs_updated = updated st, log_errors = errs,
            log_status = (if errs = None \<or> errs = Some [] then ''success'' else ''error'')\<rparr>]\<rparr>"

section \<open>Invariant of the store, reachable stores, sample data\<close>

text \<open>What every row of the table and the table as a whole are to satisfy.\<close>

definition store_inv :: "ioc_row list \<Rightarrow> bool" where
  "store_inv rows \<longleftrightarrow>
     (\<forall>r\<in>set rows. first_seen r \<le> last_seen r \<and> 1 \<le> seen_count r) \<and>
     distinct (map (\<lambda>r. (indicator_col r, type_col r)) rows)"

text \<open>
  The stores the program can produce: the empty schema, and from a store what an upsert batch
  leaves (whether it returns or is left by an exception) and what a log entry adds.
\<close>

inductive reachable :: "database \<Rightarrow> bool" where
  init: "reachable setup_schema"
| batch_done: "reachable db \<Longrightarrow> insert_or_update_iocs db batch = Inr (db', st) \<Longrightarrow> reachable db'"
| batch_aborted: "reachable db \<Longrightarrow> insert_or_update_iocs db batch = Inl (e, db') \<Longrightarrow> reachable db'"
| logged: "reachable db \<Longrightarrow> reachable (log_collection now db src st errs)"

text \<open>Records and rows used to run the definitions on concrete inputs.\<close>

definition sample_row :: ioc_row where
  "sample_row = \<lparr>indicator_col = ''203.0.113.5'', type_col = ''IP'', source_col = ''TestFeed'',
     first_seen = ''2024-01-01T00:00:00'', last_seen = ''2024-01-05T00:00:00'', seen_count = 3,
     confidence_col = ''high'', threat_level_col = ''high'', metadata_col = ''{}''\<rparr>"

definition sample_ioc :: "string \<Rightarrow> string \<Rightarrow> ioc" where
  "sample_ioc src ts = \<lparr>indicator = Some ''203.0.113.5'', type = Some ''IP'', source = Some src,
     confidence = Some ''low'', threat_level = Some ''medium'',
     metadata = Some (PDict [(''isp'', PStr ''x'')]), date_collected = Some ts\<rparr>"

definition no_indicator_ioc :: ioc where
  "no_indicator_ioc = \<lparr>indicator = None, type = Some ''IP'', source = Some ''TestFeed'',
     confidence = Some ''low'', threat_level = Some ''medium'',
     metadata = Some (PDict []), date_collected = Some ''2024-01-03T00:00:00''\<rparr>"

definition unserializable_ioc :: ioc where
  "unserializable_ioc = \<lparr>indicator = Some ''example.com'', type = Some ''Domain'',
     source = Some ''TestFeed'', confidence = Some ''low'', threat_level = Some ''medium'',
     metadata = Some (PDict [(''seen'', PObject 0)]), date_collected = Some ''2024-01-04T00:00:00''\<rparr>"

definition sample_batch :: "ioc list" where
  "sample_batch = [sample_ioc ''TestFeed'' ''2024-01-05T00:00:00'',
                   unserializable_ioc,
                   sample_ioc ''OtherFeed'' ''2024-01-03T00:00:00'']"

definition sample_store :: database where
  "sample_store = \<lparr>iocs =
      [\<lparr>indicator_col = ''203.0.113.5'', type_col = ''IP'', source_col = ''OtherFeed'',
        first_seen = ''2024-01-05T00:00:00'', last_seen = ''2024-01-05T00:00:00'', seen_count = 2,
        confidence_col = ''low'', threat_level_col = ''medium'',
        metadata_col = ''{\"isp\": \"x\"}''\<rparr>],
     collection_logs = []\<rparr>"

section \<open>Normalizing a complete IoC (normalization.py)\<close>

text \<open>The truth value of a Python value, as \<^verbatim>\<open>metadata or {}\<close> tests it.\<close>

definition truthy :: "pyval \<Rightarrow> bool" where
  "truthy v = (case v of PNone \<Rightarrow> False | PBool b \<Rightarrow> b | PInt i \<Rightarrow> i \<noteq> 0 | PStr s \<Rightarrow> s \<noteq> []
                | PList xs \<Rightarrow> xs \<noteq> [] | PDict kvs \<Rightarrow> kvs \<noteq> [] | PObject n \<Rightarrow> True)"

text \<open>\<^verbatim>\<open>normalize_ioc\<close>; \<open>now\<close> is the text \<^verbatim>\<open>_get_timestamp()\<close> returns.\<close>

definition normalize_ioc ::
  "string \<Rightarrow> string \<Rightarrow> string \<Rightarrow> string \<Rightarrow> pyval \<Rightarrow> string \<Rightarrow> ioc" where
  "normalize_ioc raw_indicator src conf level meta now =
     (let normalized_indicator = normalize_indicator raw_indicator;
          ioc_type = detect_type normalized_indicator
      in \<lparr>indicator = Some normalized_indicator, type = Some ioc_type, source = Some src,
          confidence = Some conf, threat_level = Some level,
          metadata = Some (if truthy meta then meta else PDict []),
          date_collected = Some now\<rparr>)"

text \<open>A string of 32 decimal digits.\<close>

definition all_digit_hash :: string where
  "all_digit_hash = ''01234567890123456789012345678901''"

section \<open>Validation of a record (normalization.py)\<close>

text \<open>\<^verbatim>\<open>field in ioc\<close>: whether the dict has the key, whatever its value.\<close>

definition contains_key :: "ioc \<Rightarrow> string \<Rightarrow> bool" where
  "contains_key x k =
     (if k = ''indicator'' then indicator x \<noteq> None
      else if k = ''type'' then type x \<noteq> None
      else if k = ''source'' then source x \<noteq> None
      else if k = ''confidence'' then confidence x \<noteq> None
      else if k = ''threat_level'' then threat_level x \<noteq> None
      else if k = ''metadata'' then metadata x \<noteq> None
      else if k = ''date_collected'' then date_collected x \<noteq> None
      else False)"

definition validate_ioc :: "ioc \<Rightarrow> bool" where
  "validate_ioc x = list_all (contains_key x) [''indicator'', ''type'', ''source'']"

text \<open>
  What the specification asks of \<open>isWellFormed\<close>: the three fields are present and none is
  the empty string.
\<close>

definition fields_non_empty :: "ioc \<Rightarrow> bool" where
  "fields_non_empty x =
     (indicator x \<noteq> None \<and> indicator x \<noteq> Some [] \<and>
      type x \<noteq> None \<and> type x \<noteq> Some [] \<and>
      source x \<noteq> None \<and> source x \<noteq> Some [])"

definition empty_indicator_ioc :: ioc where
  "empty_indicator_ioc = \<lparr>indicator = Some [], type = Some ''Unknown'', source = Some ''TestFeed'',
     confidence = Some ''medium'', threat_level = Some ''medium'',
     metadata = Some (PDict []), date_collected = Some ''2024-01-03T00:00:00''\<rparr>"

section \<open>The collection cycle (scheduler.py)\<close>

text \<open>
  A call into a collaborator returns a value or raises; \<open>Raises s\<close> carries the text
  \<^verbatim>\<open>str(e)\<close> of the exception, which is all the scheduler uses of it.
\<close>

datatype 'a outcome = Raises string | Returns 'a

text \<open>The attributes of \<^verbatim>\<open>Config\<close> that the scheduler reads.\<close>

record config =
  THREAT_DOMAINS :: "string list"
  ABUSEIPDB_LIMIT :: int
  MALWAREBazaar_LIMIT :: int

text \<open>The three methods of \<^verbatim>\<open>self.api_ingestion\<close> that the scheduler calls.\<close>

record api_ingestion =
  fetch_otx :: "string \<Rightarrow> ioc list outcome"
  fetch_abuseipdb :: "int \<Rightarrow> ioc list outcome"
  fetch_malwarebazaar :: "int \<Rightarrow> ioc list outcome"

text \<open>The dict that \<^verbatim>\<open>run_collection\<close> returns; \<open>collection_errors\<close> is its key \<^verbatim>\<open>errors\<close>.\<close>

record cycle_result =
  status :: string
  stats :: stats
  collection_errors :: "string list"
  total_collected :: int

text \<open>The loop over \<^verbatim>\<open>config.THREAT_DOMAINS\<close>, with its \<^verbatim>\<open>try\<close> around each fetch.\<close>

fun collect_otx ::
  "(string \<Rightarrow> ioc list outcome) \<Rightarrow> string list \<Rightarrow> ioc list \<times> string list \<Rightarrow>
   ioc list \<times> string list" where
  "collect_otx fetch [] acc = acc"
| "collect_otx fetch (domain # rest) (all_iocs, errs) =
     (case fetch domain of
        Returns otx_iocs \<Rightarrow> collect_otx fetch rest (all_iocs @ otx_iocs, errs)
      | Raises e \<Rightarrow>
          collect_otx fetch rest
            (all_iocs, errs @ [''OTX collection failed for '' @ domain @ '': '' @ e]))"

text \<open>
  The three \<^verbatim>\<open>try\<close> blocks that fill \<^verbatim>\<open>all_iocs\<close> and \<^verbatim>\<open>collection_errors\<close>. Each block
  builds a \<^verbatim>\<open>Config()\<close> first; \<open>cfg\<close> is the outcome of that construction.
\<close>

definition collect :: "api_ingestion \<Rightarrow> config outcome \<Rightarrow> ioc list \<times> string list" where
  "collect api cfg =
     (let acc1 = (case cfg of
                    Returns c \<Rightarrow> collect_otx (fetch_otx api) (THREAT_DOMAINS c) ([], [])
                  | Raises e \<Rightarrow> ([], [''OTX collection failed: '' @ e]));
          acc2 = (case cfg of
                    Returns c \<Rightarrow>
                      (case fetch_abuseipdb api (ABUSEIPDB_LIMIT c) of
                         Returns abuse_iocs \<Rightarrow> (fst acc1 @ abuse_iocs, snd acc1)
                       | Raises e \<Rightarrow> (fst acc1, snd acc1 @ [''AbuseIPDB collection failed: '' @ e]))
                  | Raises e \<Rightarrow> (fst acc1, snd acc1 @ [''AbuseIPDB collection failed: '' @ e]))
      in case cfg of
           Returns c \<Rightarrow>
             (case fetch_malwarebazaar api (MALWAREBazaar_LIMIT c) of
                Returns mb_iocs \<Rightarrow> (fst acc2 @ mb_iocs, snd acc2)
              | Raises e \<Rightarrow> (fst acc2, snd acc2 @ [''MalwareBazaar collection failed: '' @ e]))
         | Raises e \<Rightarrow> (fst acc2, snd acc2 @ [''MalwareBazaar collection failed: '' @ e]))"

text \<open>
  \<^verbatim>\<open>run_collection\<close>: the store it leaves and the dict it returns, or the exception that
  leaves \<^verbatim>\<open>insert_or_update_iocs\<close>. \<open>now\<close> is the time \<^verbatim>\<open>log_collection\<close> reads.
\<close>

definition run_collection ::
  "api_ingestion \<Rightarrow> config outcome \<Rightarrow> string \<Rightarrow> database \<Rightarrow>
   (exn \<times> database) + (database \<times> cycle_result)" where
  "run_collection api cfg now db =
     (let all_iocs = fst (collect api cfg);
          errs = snd (collect api cfg)
      in if all_iocs \<noteq> [] then
           (case insert_or_update_iocs db all_iocs of
              Inl (e, db') \<Rightarrow> Inl (e, db')
            | Inr (db', st) \<Rightarrow>
                (let error_summary = (if errs \<noteq> [] then Some (join ''; '' errs) else None)
                 in Inr (log_collection now db' ''CTI_Collector'' st error_summary,
                         \<lparr>status = ''success'', stats = st, collection_errors = errs,
                          total_collected = int (length all_iocs)\<rparr>)))
         else Inr (db, \<lparr>status = ''no_data'', stats = zero_stats, collection_errors = errs,
                        total_collected = 0\<rparr>))"

text \<open>What a fetch contributes to \<^verbatim>\<open>all_iocs\<close>: its list, or nothing when it raised.\<close>

definition returned :: "ioc list outcome \<Rightarrow> ioc list" where
  "returned r = (case r of Returns xs \<Rightarrow> xs | Raises e \<Rightarrow> [])"

text \<open>
  A record that the insert branch accepts: the four mandatory keys are present and the
  metadata can be serialized.
\<close>

definition storable :: "ioc \<Rightarrow> bool" where
  "storable x \<longleftrightarrow> indicator x \<noteq> None \<and> type x \<noteq> None \<and> source x \<noteq> None \<and>
     date_collected x \<noteq> None \<and> \<not> isl (json_dumps (get_default (metadata x) (PDict [])))"

text \<open>Collaborators and a configuration used to run a cycle on concrete inputs.\<close>

definition sample_config :: config where
  "sample_config = \<lparr>THREAT_DOMAINS = [''urlhaus.abuse.ch'', ''phishtank.com''],
                     ABUSEIPDB_LIMIT = 10000, MALWAREBazaar_LIMIT = 10000\<rparr>"

definition quiet_api :: api_ingestion where
  "quiet_api = \<lparr>fetch_otx = (\<lambda>domain. Returns []),
                 fetch_abuseipdb = (\<lambda>limit. Returns []),
                 fetch_malwarebazaar = (\<lambda>limit. Returns [])\<rparr>"

definition failing_otx_api :: api_ingestion where
  "failing_otx_api =
     \<lparr>fetch_otx = (\<lambda>domain. Raises ''timed out''),
      fetch_abuseipdb = (\<lambda>limit. Returns [sample_ioc ''AbuseIPDB'' ''2024-01-06T08:00:00'']),
      fetch_malwarebazaar = (\<lambda>limit. Returns [])\<rparr>"

section \<open>Invariants of the address printer and parser\<close>

text \<open>
  What holds of the state of the loop of \<^verbatim>\<open>_compress_hextets\<close> when it is at the index
  \<open>idx\<close> of the hextets \<open>hs\<close>: a best run of positive length lies in \<open>hs\<close> below
  \<open>idx\<close> and holds only \<^verbatim>\<open>'0'\<close>, and so does the current run, which ends at \<open>idx\<close>.
\<close>

definition scan_inv :: "string list \<Rightarrow> nat \<Rightarrow> nat option \<times> nat \<times> nat option \<times> nat \<Rightarrow> bool" where
  "scan_inv hs idx st =
     (case st of (bs, bl, cs, cl) \<Rightarrow>
        (0 < bl \<longrightarrow> (\<exists>b. bs = Some b \<and> b + bl \<le> idx \<and> (\<forall>k<bl. hs ! (b + k) = ''0''))) \<and>
        (case cs of None \<Rightarrow> cl = 0
         | Some c \<Rightarrow> c + cl = idx \<and> (\<forall>k<cl. hs ! (c + k) = ''0'')))"

text \<open>
  The addresses \<^verbatim>\<open>ipaddress.ip_address\<close> returns: four bytes, or eight 16-bit groups and
  a scope id that, if there is one, is not empty and has neither \<^verbatim>\<open>%\<close> nor \<^verbatim>\<open>/\<close>.
\<close>

fun wf_addr :: "ip_addr \<Rightarrow> bool" where
  "wf_addr (IPv4Address octets) \<longleftrightarrow> length octets = 4 \<and> (\<forall>n\<in>set octets. n \<le> 255)"
| "wf_addr (IPv6Address hextets scope_id) \<longleftrightarrow>
     length hextets = 8 \<and> (\<forall>x\<in>set hextets. x < 65536) \<and>
     (case scope_id of None \<Rightarrow> True
      | Some s \<Rightarrow> s \<noteq> [] \<and> CHR ''%'' \<notin> set s \<and> CHR ''/'' \<notin> set s)"

section \<open>Properties of the store\<close>

lemma select_one_None: "select_one rows i t = None \<longleftrightarrow> \<not> list_ex (matches i t) rows"
  by (auto simp: select_one_def find_None_iff list_ex_iff)

lemma select_one_None_ex: "select_one rows i t = None \<Longrightarrow> list_ex (matches i t) rows = False"
  by (simp add: select_one_None)

lemma select_one_Some: "select_one rows i t = Some r \<Longrightarrow> r \<in> set rows \<and> matches i t r"
  unfolding select_one_def by (auto simp: find_Some_iff)

lemma try_body_Inr:
  assumes "try_body rows ioc = Inr (rows', oc)"
  shows "\<exists>i t s d m.
     indicator ioc = Some i \<and> type ioc = Some t \<and> source ioc = Some s \<and>
     date_collected ioc = Some d \<and>
     json_dumps (get_default (metadata ioc) (PDict [])) = Inr m \<and>
     (case select_one rows i t of
        None \<Rightarrow> oc = Inserted \<and>
          rows' = rows @ [\<lparr>indicator_col = i, type_col = t, source_col = s,
                        first_seen = d, last_seen = d, seen_count = 1,
                        confidence_col = get_default (confidence ioc) ''medium'',
                        threat_level_col = get_default (threat_level ioc) ''medium'',
                        metadata_col = m\<rparr>]
      | Some row \<Rightarrow> oc = Updated \<and>
          rows' = map (\<lambda>r. if indicator_col r = i \<and> type_col r = t
                    then r\<lparr>last_seen := max (last_seen row) d,
                           seen_count := seen_count row + 1, source_col := s,
                           confidence_col := get_default (confidence ioc) ''medium'',
                           threat_level_col := get_default (threat_level ioc) ''medium'',
                           metadata_col := m\<rparr>
                    else r) rows)"
  using assms
  unfolding try_body_def bind_exn_def getitem_def
  by (auto simp: sql_insert_def sql_update_def bind_integer_def Let_def select_one_None_ex
           split: option.splits sum.splits if_splits)
     (auto simp: matches_def)

lemma upsert_loop_balance:
  "upsert_loop rows st batch = Inr (rows', st') \<Longrightarrow>
   processed st' - (new st' + updated st' + errors st') =
   processed st - (new st + updated st + errors st)"
proof (induction batch arbitrary: rows st)
  case Nil
  then show ?case by simp
next
  case (Cons x xs)
  show ?case
  proof (cases "try_body rows x")
    case (Inl e)
    with Cons.prems obtain i where "indicator x = Some i"
      and "upsert_loop rows (st\<lparr>processed := processed st + 1, errors := errors st + 1\<rparr>) xs = Inr (rows', st')"
      by (auto simp: getitem_def Let_def split: option.splits)
    from Cons.IH[OF this(2)] show ?thesis by simp
  next
    case (Inr p)
    obtain r oc where p: "p = (r, oc)" by (cases p)
    show ?thesis
    proof (cases oc)
      case Inserted
      with Inr p Cons.prems
      have "upsert_loop r (st\<lparr>processed := processed st + 1, new := new st + 1\<rparr>) xs = Inr (rows', st')"
        by (simp add: Let_def)
      from Cons.IH[OF this] show ?thesis by simp
    next
      case Updated
      with Inr p Cons.prems
      have "upsert_loop r (st\<lparr>processed := processed st + 1, updated := updated st + 1\<rparr>) xs = Inr (rows', st')"
        by (simp add: Let_def)
      from Cons.IH[OF this] show ?thesis by simp
    qed
  qed
qed

lemma upsert_loop_returns:
  "\<forall>x\<in>set batch. indicator x \<noteq> None \<Longrightarrow> \<exists>rows' st'. upsert_loop rows st batch = Inr (rows', st')"
proof (induction batch arbitrary: rows st)
  case Nil
  then show ?case by simp
next
  case (Cons x xs)
  then show ?case
    by (auto simp: Let_def getitem_def split: sum.splits branch.splits option.splits prod.splits)
qed

lemma try_body_inv:
  assumes "store_inv rows" and "try_body rows x = Inr (rows', oc)"
  shows "store_inv rows'"
proof -
  from try_body_Inr[OF assms(2)] obtain i t s d m where
    c: "case select_one rows i t of
        None \<Rightarrow> oc = Inserted \<and>
          rows' = rows @ [\<lparr>indicator_col = i, type_col = t, source_col = s,
                        first_seen = d, last_seen = d, seen_count = 1,
                        confidence_col = get_default (confidence x) ''medium'',
                        threat_level_col = get_default (threat_level x) ''medium'',
                        metadata_col = m\<rparr>]
      | Some row \<Rightarrow> oc = Updated \<and>
          rows' = map (\<lambda>r. if indicator_col r = i \<and> type_col r = t
                    then r\<lparr>last_seen := max (last_seen row) d,
                           seen_count := seen_count row + 1, source_col := s,
                           confidence_col := get_default (confidence x) ''medium'',
                           threat_level_col := get_default (threat_level x) ''medium'',
                           metadata_col := m\<rparr>
                    else r) rows"
    by blast
  show ?thesis
  proof (cases "select_one rows i t")
    case None
    then have "\<forall>r\<in>set rows. (indicator_col r, type_col r) \<noteq> (i, t)"
      by (auto simp: select_one_None list_ex_iff matches_def)
    with c None assms(1) show ?thesis
      by (auto simp: store_inv_def)
  next
    case (Some row)
    then have row: "row \<in> set rows" "indicator_col row = i" "type_col row = t"
      using select_one_Some[OF Some] by (auto simp: matches_def)
    have keys: "map (\<lambda>r. (indicator_col r, type_col r)) rows' = map (\<lambda>r. (indicator_col r, type_col r)) rows"
      using c Some by (auto simp: comp_def)
    have "\<forall>r\<in>set rows'. first_seen r \<le> last_seen r \<and> 1 \<le> seen_count r"
    proof
      fix r assume "r \<in> set rows'"
      then obtain r0 where r0: "r0 \<in> set rows" and
        r: "r = (if indicator_col r0 = i \<and> type_col r0 = t
                    then r0\<lparr>last_seen := max (last_seen row) d,
                           seen_count := seen_count row + 1, source_col := s,
                           confidence_col := get_default (confidence x) ''medium'',
                           threat_level_col := get_default (threat_level x) ''medium'',
                           metadata_col := m\<rparr>
                    else r0)"
        using c Some by auto
      show "first_seen r \<le> last_seen r \<and> 1 \<le> seen_count r"
      proof (cases "indicator_col r0 = i \<and> type_col r0 = t")
        case True
        with assms(1) r0 row have "r0 = row"
          by (auto simp: store_inv_def distinct_map inj_on_def)
        with True r assms(1) row show ?thesis
          by (auto simp: store_inv_def max_def)
      next
        case False
        with r r0 assms(1) show ?thesis by (auto simp: store_inv_def)
      qed
    qed
    with keys assms(1) show ?thesis by (simp add: store_inv_def)
  qed
qed

lemma upsert_loop_inv:
  "store_inv rows \<Longrightarrow>
   (case upsert_loop rows st batch of Inl (e, rows') \<Rightarrow> store_inv rows' | Inr (rows', st') \<Rightarrow> store_inv rows')"
proof (induction batch arbitrary: rows st)
  case Nil
  then show ?case by simp
next
  case (Cons x xs)
  show ?case
  proof (cases "try_body rows x")
    case (Inl e)
    with Cons show ?thesis
      by (auto simp: Let_def getitem_def split: option.splits)
  next
    case (Inr p)
    obtain r oc where p: "p = (r, oc)" by (cases p)
    with Inr Cons.prems have "store_inv r" by (auto intro: try_body_inv)
    with Inr p Cons.IH show ?thesis
      by (cases oc) (auto simp: Let_def)
  qed
qed

lemmas eval_defs = try_body_def bind_exn_def getitem_def get_default_def select_one_def
  matches_def sql_insert_def sql_update_def bind_integer_def json_string_def json_escape_char_def
  printable_ascii_def insert_or_update_iocs_def zero_stats_def setup_schema_def
  sample_row_def sample_ioc_def Let_def max_def

text \<open>
  Claim C1. Take a record with its four mandatory entries and a metadata that can be
  serialized, at any point of the loop (any table, any counters, any rest of the batch).
  When no row has its (indicator, type), the body of the loop appends one row with
  first_seen = last_seen = date_collected, seen_count = 1 and the other fields of the record,
  \<open>processed\<close> and \<open>new\<close> grow by one, and the loop goes on with the rest of the batch.
  When a row has it (and the new count fits SQLite's INTEGER), last_seen becomes the maximum
  of the row's last_seen and date_collected, seen_count grows by exactly one, source,
  confidence, threat_level and metadata are overwritten whatever the two timestamps are,
  first_seen is kept, \<open>processed\<close> and \<open>updated\<close> grow by one, and the loop goes on
  with the rest of the batch.
\<close>

theorem upsert_record_step:
  assumes "indicator x = Some i" and "type x = Some t" and "source x = Some s"
    and "date_collected x = Some d"
    and "json_dumps (get_default (metadata x) (PDict [])) = Inr m"
  shows
    "(select_one rows i t = None \<longrightarrow>
        try_body rows x =
          Inr (rows @ [\<lparr>indicator_col = i, type_col = t, source_col = s,
                        first_seen = d, last_seen = d, seen_count = 1,
                        confidence_col = get_default (confidence x) ''medium'',
                        threat_level_col = get_default (threat_level x) ''medium'',
                        metadata_col = m\<rparr>], Inserted) \<and>
        upsert_loop rows st (x # rest) =
          upsert_loop
            (rows @ [\<lparr>indicator_col = i, type_col = t, source_col = s,
                        first_seen = d, last_seen = d, seen_count = 1,
                        confidence_col = get_default (confidence x) ''medium'',
                        threat_level_col = get_default (threat_level x) ''medium'',
                        metadata_col = m\<rparr>])
            (st\<lparr>processed := processed st + 1, new := new st + 1\<rparr>) rest) \<and>
     (\<forall>row. select_one rows i t = Some row \<and>
            - (2 ^ 63) \<le> seen_count row + 1 \<and> seen_count row + 1 < 2 ^ 63 \<longrightarrow>
        try_body rows x =
          Inr (map (\<lambda>r. if indicator_col r = i \<and> type_col r = t
                    then r\<lparr>last_seen := max (last_seen row) d,
                           seen_count := seen_count row + 1, source_col := s,
                           confidence_col := get_default (confidence x) ''medium'',
                           threat_level_col := get_default (threat_level x) ''medium'',
                           metadata_col := m\<rparr>
                    else r) rows, Updated) \<and>
        upsert_loop rows st (x # rest) =
          upsert_loop
            (map (\<lambda>r. if indicator_col r = i \<and> type_col r = t
                    then r\<lparr>last_seen := max (last_seen row) d,
                           seen_count := seen_count row + 1, source_col := s,
                           confidence_col := get_default (confidence x) ''medium'',
                           threat_level_col := get_default (threat_level x) ''medium'',
                           metadata_col := m\<rparr>
                    else r) rows)
            (st\<lparr>processed := processed st + 1, updated := updated st + 1\<rparr>) rest)"
proof (intro conjI impI allI)
  assume n: "select_one rows i t = None"
  show ins: "try_body rows x =
          Inr (rows @ [\<lparr>indicator_col = i, type_col = t, source_col = s,
                        first_seen = d, last_seen = d, seen_count = 1,
                        confidence_col = get_default (confidence x) ''medium'',
                        threat_level_col = get_default (threat_level x) ''medium'',
                        metadata_col = m\<rparr>], Inserted)"
    using assms n
    by (simp add: try_body_def bind_exn_def getitem_def sql_insert_def select_one_None_ex)
  show "upsert_loop rows st (x # rest) =
          upsert_loop
            (rows @ [\<lparr>indicator_col = i, type_col = t, source_col = s,
                        first_seen = d, last_seen = d, seen_count = 1,
                        confidence_col = get_default (confidence x) ''medium'',
                        threat_level_col = get_default (threat_level x) ''medium'',
                        metadata_col = m\<rparr>])
            (st\<lparr>processed := processed st + 1, new := new st + 1\<rparr>) rest"
    by (simp add: ins Let_def)
next
  fix row
  assume r: "select_one rows i t = Some row \<and>
            - (2 ^ 63) \<le> seen_count row + 1 \<and> seen_count row + 1 < 2 ^ 63"
  show upd: "try_body rows x =
          Inr (map (\<lambda>r. if indicator_col r = i \<and> type_col r = t
                    then r\<lparr>last_seen := max (last_seen row) d,
                           seen_count := seen_count row + 1, source_col := s,
                           confidence_col := get_default (confidence x) ''medium'',
                           threat_level_col := get_default (threat_level x) ''medium'',
                           metadata_col := m\<rparr>
                    else r) rows, Updated)"
    using assms r
    by (simp add: try_body_def bind_exn_def getitem_def bind_integer_def sql_update_def
        matches_def Let_def)
  show "upsert_loop rows st (x # rest) =
          upsert_loop
            (map (\<lambda>r. if indicator_col r = i \<and> type_col r = t
                    then r\<lparr>last_seen := max (last_seen row) d,
                           seen_count := seen_count row + 1, source_col := s,
                           confidence_col := get_default (confidence x) ''medium'',
                           threat_level_col := get_default (threat_level x) ''medium'',
                           metadata_col := m\<rparr>
                    else r) rows)
            (st\<lparr>processed := processed st + 1, updated := updated st + 1\<rparr>) rest"
    by (simp add: upd Let_def)
qed

text \<open>
  A first observation of an address on the empty table, then an observation of it that is
  older than the row's last_seen: the first is inserted with first_seen = last_seen and
  count 1; the second keeps last_seen, adds one to the count and overwrites source,
  confidence, threat_level and metadata with those of the older observation.
\<close>

theorem upsert_record_step_witness:
  "try_body [] (sample_ioc ''TestFeed'' ''2024-01-05T00:00:00'') =
     Inr ([\<lparr>indicator_col = ''203.0.113.5'', type_col = ''IP'', source_col = ''TestFeed'',
            first_seen = ''2024-01-05T00:00:00'', last_seen = ''2024-01-05T00:00:00'',
            seen_count = 1, confidence_col = ''low'', threat_level_col = ''medium'',
            metadata_col = ''{\"isp\": \"x\"}''\<rparr>], Inserted) \<and>
   upsert_loop [] zero_stats [sample_ioc ''TestFeed'' ''2024-01-05T00:00:00''] =
     Inr ([\<lparr>indicator_col = ''203.0.113.5'', type_col = ''IP'', source_col = ''TestFeed'',
            first_seen = ''2024-01-05T00:00:00'', last_seen = ''2024-01-05T00:00:00'',
            seen_count = 1, confidence_col = ''low'', threat_level_col = ''medium'',
            metadata_col = ''{\"isp\": \"x\"}''\<rparr>],
          \<lparr>processed = 1, new = 1, updated = 0, errors = 0\<rparr>) \<and>
   try_body [sample_row] (sample_ioc ''OtherFeed'' ''2024-01-03T00:00:00'') =
     Inr ([\<lparr>indicator_col = ''203.0.113.5'', type_col = ''IP'', source_col = ''OtherFeed'',
            first_seen = ''2024-01-01T00:00:00'', last_seen = ''2024-01-05T00:00:00'',
            seen_count = 4, confidence_col = ''low'', threat_level_col = ''medium'',
            metadata_col = ''{\"isp\": \"x\"}''\<rparr>], Updated) \<and>
   upsert_loop [sample_row] zero_stats [sample_ioc ''OtherFeed'' ''2024-01-03T00:00:00''] =
     Inr ([\<lparr>indicator_col = ''203.0.113.5'', type_col = ''IP'', source_col = ''OtherFeed'',
            first_seen = ''2024-01-01T00:00:00'', last_seen = ''2024-01-05T00:00:00'',
            seen_count = 4, confidence_col = ''low'', threat_level_col = ''medium'',
            metadata_col = ''{\"isp\": \"x\"}''\<rparr>],
          \<lparr>processed = 1, new = 0, updated = 1, errors = 0\<rparr>)"
proof -
  have m: "json_dumps (get_default (metadata (sample_ioc src ts)) (PDict [])) = Inr ''{\"isp\": \"x\"}''"
    for src ts
    by (simp add: sample_ioc_def get_default_def json_string_def json_escape_char_def
        printable_ascii_def)
  have f: "indicator (sample_ioc src ts) = Some ''203.0.113.5''" "type (sample_ioc src ts) = Some ''IP''"
    "source (sample_ioc src ts) = Some src" "date_collected (sample_ioc src ts) = Some ts"
    "confidence (sample_ioc src ts) = Some ''low''" "threat_level (sample_ioc src ts) = Some ''medium''"
    for src ts
    by (simp_all add: sample_ioc_def)
  have s0: "select_one [] ''203.0.113.5'' ''IP'' = None" by (simp add: select_one_def)
  have s1: "select_one [sample_row] ''203.0.113.5'' ''IP'' = Some sample_row"
    by (simp add: select_one_def matches_def sample_row_def)
  from upsert_record_step[where x = "sample_ioc ''TestFeed'' ''2024-01-05T00:00:00''"
      and rows = "[]" and st = zero_stats and rest = "[]", OF f(1-4) m]
    upsert_record_step[where x = "sample_ioc ''OtherFeed'' ''2024-01-03T00:00:00''"
      and rows = "[sample_row]" and st = zero_stats and rest = "[]", OF f(1-4) m]
    s0 s1
  show ?thesis
    by (simp add: f get_default_def zero_stats_def sample_row_def max_def)
qed

lemma insert_or_update_inv:
  "store_inv (iocs db) \<Longrightarrow> insert_or_update_iocs db batch = Inr (db', st) \<Longrightarrow> store_inv (iocs db')"
  "store_inv (iocs db) \<Longrightarrow> insert_or_update_iocs db batch = Inl (e, db') \<Longrightarrow> store_inv (iocs db')"
  using upsert_loop_inv[of "iocs db" zero_stats batch]
  by (auto simp: insert_or_update_iocs_def split: sum.splits prod.splits)

lemma reachable_inv: "reachable db \<Longrightarrow> store_inv (iocs db)"
proof (induction rule: reachable.induct)
  case init
  show ?case by (simp add: setup_schema_def store_inv_def)
next
  case (batch_done db batch db' st)
  then show ?case by (blast intro: insert_or_update_inv)
next
  case (batch_aborted db batch e db')
  then show ?case by (blast intro: insert_or_update_inv)
next
  case (logged db now src st errs)
  then show ?case by (simp add: log_collection_def)
qed

text \<open>
  Claim C2. In every store the program can reach, so after every upsert batch, each row has
  first_seen \<le> last_seen and seen_count \<ge> 1, and no two rows share (indicator, type).
\<close>

theorem store_invariant:
  "reachable db \<Longrightarrow>
     (\<forall>r\<in>set (iocs db). first_seen r \<le> last_seen r \<and> 1 \<le> seen_count r) \<and>
     distinct (map (\<lambda>r. (indicator_col r, type_col r)) (iocs db))"
  using reachable_inv[of db] by (simp add: store_inv_def)

lemma sample_batch_result:
  "insert_or_update_iocs setup_schema sample_batch =
     Inr (sample_store, \<lparr>processed = 3, new = 1, updated = 1, errors = 1\<rparr>)"
  by (simp add: eval_defs sample_batch_def sample_store_def unserializable_ioc_def)

text \<open>The invariant on the store that a batch of three records leaves.\<close>

theorem store_invariant_witness:
  "reachable sample_store \<and>
   list_all (\<lambda>r. first_seen r \<le> last_seen r \<and> 1 \<le> seen_count r) (iocs sample_store) \<and>
   distinct (map (\<lambda>r. (indicator_col r, type_col r)) (iocs sample_store))"
proof -
  have r: "reachable sample_store"
    using reachable.batch_done[OF reachable.init sample_batch_result] .
  from store_invariant[OF r] r show ?thesis by (simp add: list_all_iff)
qed

text \<open>
  Claim C10. The statistics that \<^verbatim>\<open>insert_or_update_iocs\<close> returns satisfy
  processed = new + updated + errors, and it does return them for every batch whose records
  all carry the key \<^verbatim>\<open>indicator\<close>.
\<close>

theorem stats_partition:
  "(insert_or_update_iocs db batch = Inr (db', st) \<longrightarrow>
      processed st = new st + updated st + errors st) \<and>
   ((\<forall>x\<in>set batch. indicator x \<noteq> None) \<longrightarrow>
      (\<exists>db'' st''. insert_or_update_iocs db batch = Inr (db'', st'')))"
proof
  show "insert_or_update_iocs db batch = Inr (db', st) \<longrightarrow>
      processed st = new st + updated st + errors st"
  proof
    assume "insert_or_update_iocs db batch = Inr (db', st)"
    then obtain rows where "upsert_loop (iocs db) zero_stats batch = Inr (rows, st)"
      by (auto simp: insert_or_update_iocs_def split: sum.splits prod.splits)
    from upsert_loop_balance[OF this] show "processed st = new st + updated st + errors st"
      by (simp add: zero_stats_def)
  qed
next
  show "(\<forall>x\<in>set batch. indicator x \<noteq> None) \<longrightarrow>
      (\<exists>db'' st''. insert_or_update_iocs db batch = Inr (db'', st''))"
  proof
    assume "\<forall>x\<in>set batch. indicator x \<noteq> None"
    from upsert_loop_returns[OF this, of "iocs db" zero_stats]
    show "\<exists>db'' st''. insert_or_update_iocs db batch = Inr (db'', st'')"
      by (auto simp: insert_or_update_iocs_def)
  qed
qed

text \<open>One record inserted, one that raises, one that updates: 3 = 1 + 1 + 1.\<close>

theorem stats_partition_witness:
  "insert_or_update_iocs setup_schema sample_batch =
     Inr (sample_store, \<lparr>processed = 3, new = 1, updated = 1, errors = 1\<rparr>) \<and>
   list_all (\<lambda>x. indicator x \<noteq> None) sample_batch \<and>
   processed \<lparr>processed = 3, new = 1, updated = 1, errors = (1::int)\<rparr> =
     new \<lparr>processed = 3, new = 1, updated = 1, errors = (1::int)\<rparr>
     + updated \<lparr>processed = 3, new = 1, updated = 1, errors = (1::int)\<rparr>
     + errors \<lparr>processed = 3, new = 1, updated = 1, errors = (1::int)\<rparr>"
  using stats_partition[of setup_schema sample_batch sample_store
          "\<lparr>processed = 3, new = 1, updated = 1, errors = 1\<rparr>"] sample_batch_result
  by (simp add: sample_batch_def sample_ioc_def unserializable_ioc_def)

text \<open>
  A dict without the key \<^verbatim>\<open>indicator\<close> is the one input on which an exception leaves the
  loop: the handler's log message reads \<^verbatim>\<open>ioc['indicator']\<close> again. No record that
  \<^verbatim>\<open>normalize_ioc\<close> builds is of this kind.
\<close>

lemma no_indicator_aborts:
  "insert_or_update_iocs setup_schema [no_indicator_ioc, sample_ioc ''TestFeed'' ''2024-01-05T00:00:00'']
     = Inl (KeyError ''indicator'', setup_schema)"
  by (simp add: eval_defs no_indicator_ioc_def)

text \<open>When the batch is processed to its end, \<open>processed\<close> has grown by its length.\<close>

lemma upsert_loop_counts:
  "upsert_loop rows st batch = Inr (rows', st') \<Longrightarrow> processed st' = processed st + int (length batch)"
proof (induction batch arbitrary: rows st)
  case Nil
  then show ?case by simp
next
  case (Cons x xs)
  show ?case
  proof (cases "try_body rows x")
    case (Inl e)
    with Cons.prems obtain i where "indicator x = Some i"
      and "upsert_loop rows (st\<lparr>processed := processed st + 1, errors := errors st + 1\<rparr>) xs = Inr (rows', st')"
      by (auto simp: getitem_def Let_def split: option.splits)
    from Cons.IH[OF this(2)] show ?thesis by simp
  next
    case (Inr p)
    obtain r oc where p: "p = (r, oc)" by (cases p)
    show ?thesis
    proof (cases oc)
      case Inserted
      with Inr p Cons.prems
      have "upsert_loop r (st\<lparr>processed := processed st + 1, new := new st + 1\<rparr>) xs = Inr (rows', st')"
        by (simp add: Let_def)
      from Cons.IH[OF this] show ?thesis by simp
    next
      case Updated
      with Inr p Cons.prems
      have "upsert_loop r (st\<lparr>processed := processed st + 1, updated := updated st + 1\<rparr>) xs = Inr (rows', st')"
        by (simp add: Let_def)
      from Cons.IH[OF this] show ?thesis by simp
    qed
  qed
qed

lemma normalize_ioc_keys:
  "indicator (normalize_ioc raw src conf level meta now) = Some (normalize_indicator raw)"
  "type (normalize_ioc raw src conf level meta now) = Some (detect_type (normalize_indicator raw))"
  "source (normalize_ioc raw src conf level meta now) = Some src"
  "date_collected (normalize_ioc raw src conf level meta now) = Some now"
  by (simp_all add: normalize_ioc_def Let_def)

lemma unserializable_raises:
  "try_body rows unserializable_ioc = Inl (TypeError ''Object is not JSON serializable'')"
  by (cases "select_one rows ''example.com'' ''Domain''")
    (simp_all add: try_body_def bind_exn_def getitem_def get_default_def unserializable_ioc_def)

text \<open>
  Claim C7. The records of a batch are dicts that \<^verbatim>\<open>normalize_ioc\<close> builds, which always
  carry the key \<^verbatim>\<open>indicator\<close>. For such a record, when the body of the \<^verbatim>\<open>try\<close> raises,
  whatever the exception, the loop goes on with the next record from the same table, with
  \<open>errors\<close> and \<open>processed\<close> each one larger. So a batch of such records is processed to
  its end: statistics are returned, \<open>processed\<close> is the number of records of the batch,
  those that raised included, and every record that was neither inserted nor updated is
  counted in \<open>errors\<close>.
\<close>

theorem record_errors_are_counted:
  "indicator (normalize_ioc raw src conf level meta now) \<noteq> None \<and>
   (indicator x \<noteq> None \<and> try_body rows x = Inl e \<longrightarrow>
      upsert_loop rows st (x # rest) =
        upsert_loop rows (st\<lparr>processed := processed st + 1, errors := errors st + 1\<rparr>) rest) \<and>
   ((\<forall>y\<in>set batch. indicator y \<noteq> None) \<longrightarrow>
      (\<exists>db' st'. insert_or_update_iocs db batch = Inr (db', st') \<and>
         processed st' = int (length batch) \<and>
         errors st' = int (length batch) - new st' - updated st'))"
proof (intro conjI impI)
  show "indicator (normalize_ioc raw src conf level meta now) \<noteq> None"
    by (simp add: normalize_ioc_keys)
next
  assume "indicator x \<noteq> None \<and> try_body rows x = Inl e"
  then show "upsert_loop rows st (x # rest) =
        upsert_loop rows (st\<lparr>processed := processed st + 1, errors := errors st + 1\<rparr>) rest"
    by (auto simp: Let_def getitem_def)
next
  assume a: "\<forall>y\<in>set batch. indicator y \<noteq> None"
  from upsert_loop_returns[OF a, of "iocs db" zero_stats] obtain rows' st' where
    l: "upsert_loop (iocs db) zero_stats batch = Inr (rows', st')" by blast
  from upsert_loop_counts[OF l] have p: "processed st' = int (length batch)"
    by (simp add: zero_stats_def)
  from upsert_loop_balance[OF l] p have "errors st' = int (length batch) - new st' - updated st'"
    by (simp add: zero_stats_def)
  with l p show "\<exists>db' st'. insert_or_update_iocs db batch = Inr (db', st') \<and>
         processed st' = int (length batch) \<and>
         errors st' = int (length batch) - new st' - updated st'"
    by (simp add: insert_or_update_iocs_def)
qed

text \<open>
  A batch whose second record has a metadata that cannot be serialized: the record raises
  and is counted, and the third record, which comes after it, updates the row of the first.
\<close>

theorem record_errors_are_counted_witness:
  "list_all (\<lambda>y. indicator y \<noteq> None) sample_batch \<and>
   try_body (iocs sample_store) unserializable_ioc =
     Inl (TypeError ''Object is not JSON serializable'') \<and>
   upsert_loop (iocs sample_store) zero_stats [unserializable_ioc] =
     Inr (iocs sample_store, \<lparr>processed = 1, new = 0, updated = 0, errors = 1\<rparr>) \<and>
   insert_or_update_iocs setup_schema sample_batch =
     Inr (sample_store, \<lparr>processed = 3, new = 1, updated = 1, errors = 1\<rparr>)"
proof -
  have i: "indicator unserializable_ioc \<noteq> None" by (simp add: unserializable_ioc_def)
  from record_errors_are_counted[where x = unserializable_ioc and rows = "iocs sample_store"
      and e = "TypeError ''Object is not JSON serializable''" and st = zero_stats and rest = "[]"]
    i unserializable_raises[of "iocs sample_store"]
  have "upsert_loop (iocs sample_store) zero_stats [unserializable_ioc] =
     Inr (iocs sample_store, \<lparr>processed = 1, new = 0, updated = 0, errors = 1\<rparr>)"
    by (simp add: zero_stats_def)
  then show ?thesis
    using sample_batch_result unserializable_raises[of "iocs sample_store"]
    by (simp add: sample_batch_def sample_ioc_def unserializable_ioc_def)
qed

section \<open>Properties of validation and of the collection cycle\<close>

text \<open>
  Against claim C6 as stated: a record whose indicator is the empty string passes
  \<^verbatim>\<open>validate_ioc\<close>, although one of its three fields is empty.
\<close>

theorem validate_ioc_accepts_empty_field:
  "validate_ioc empty_indicator_ioc \<and> \<not> fields_non_empty empty_indicator_ioc"
  by (simp add: validate_ioc_def contains_key_def fields_non_empty_def empty_indicator_ioc_def)

text \<open>
  Claim C6, amended. \<^verbatim>\<open>validate_ioc\<close> returns true exactly for the records that have the
  keys indicator, type and source, whatever their values; so it accepts every record whose
  three fields are non-empty, and also records where one of them is the empty string.
\<close>

theorem validate_ioc_keys:
  "(validate_ioc x \<longleftrightarrow> indicator x \<noteq> None \<and> type x \<noteq> None \<and> source x \<noteq> None) \<and>
   (fields_non_empty x \<longrightarrow> validate_ioc x)"
  by (simp add: validate_ioc_def contains_key_def fields_non_empty_def)

text \<open>A record with three non-empty fields is accepted.\<close>

theorem validate_ioc_keys_witness:
  "fields_non_empty (sample_ioc ''TestFeed'' ''2024-01-05T00:00:00'') \<and>
   validate_ioc (sample_ioc ''TestFeed'' ''2024-01-05T00:00:00'')"
  using validate_ioc_keys[of "sample_ioc ''TestFeed'' ''2024-01-05T00:00:00''"]
  by (simp add: fields_non_empty_def sample_ioc_def)

text \<open>The list a cycle collects is the lists of the fetches that returned, in order.\<close>

lemma collect_otx_fst:
  "fst (collect_otx f ds (a, e)) = a @ concat (map (\<lambda>d. returned (f d)) ds)"
  by (induction ds arbitrary: a e) (auto simp: returned_def split: outcome.splits)

lemma collect_fst:
  "fst (collect api (Returns c)) =
     concat (map (\<lambda>d. returned (fetch_otx api d)) (THREAT_DOMAINS c))
     @ returned (fetch_abuseipdb api (ABUSEIPDB_LIMIT c))
     @ returned (fetch_malwarebazaar api (MALWAREBazaar_LIMIT c))"
  by (simp add: collect_def Let_def collect_otx_fst returned_def split: outcome.splits)

lemma collect_fst_Raises: "fst (collect api (Raises e)) = []"
  by (simp add: collect_def Let_def)

text \<open>No statement deletes a row: a key that is in the table stays in it.\<close>

lemma try_body_keeps_keys:
  assumes "try_body rows x = Inr (rows', oc)" and "list_ex (matches i t) rows"
  shows "list_ex (matches i t) rows'"
proof -
  from try_body_Inr[OF assms(1)] obtain i' t' s d m where
    c: "case select_one rows i' t' of
        None \<Rightarrow> oc = Inserted \<and>
          rows' = rows @ [\<lparr>indicator_col = i', type_col = t', source_col = s,
                        first_seen = d, last_seen = d, seen_count = 1,
                        confidence_col = get_default (confidence x) ''medium'',
                        threat_level_col = get_default (threat_level x) ''medium'',
                        metadata_col = m\<rparr>]
      | Some row \<Rightarrow> oc = Updated \<and>
          rows' = map (\<lambda>r. if indicator_col r = i' \<and> type_col r = t'
                    then r\<lparr>last_seen := max (last_seen row) d,
                           seen_count := seen_count row + 1, source_col := s,
                           confidence_col := get_default (confidence x) ''medium'',
                           threat_level_col := get_default (threat_level x) ''medium'',
                           metadata_col := m\<rparr>
                    else r) rows"
    by blast
  from assms(2) obtain r where r: "r \<in> set rows" "matches i t r"
    by (auto simp: list_ex_iff)
  show ?thesis
  proof (cases "select_one rows i' t'")
    case None
    with c r show ?thesis by (auto simp: list_ex_iff)
  next
    case (Some row)
    with c have rows': "rows' = map (\<lambda>r. if indicator_col r = i' \<and> type_col r = t'
                    then r\<lparr>last_seen := max (last_seen row) d,
                           seen_count := seen_count row + 1, source_col := s,
                           confidence_col := get_default (confidence x) ''medium'',
                           threat_level_col := get_default (threat_level x) ''medium'',
                           metadata_col := m\<rparr>
                    else r) rows" by simp
    have "matches i t ((\<lambda>r. if indicator_col r = i' \<and> type_col r = t'
                    then r\<lparr>last_seen := max (last_seen row) d,
                           seen_count := seen_count row + 1, source_col := s,
                           confidence_col := get_default (confidence x) ''medium'',
                           threat_level_col := get_default (threat_level x) ''medium'',
                           metadata_col := m\<rparr>
                    else r) r)"
      using r(2) by (simp add: matches_def)
    with r(1) show ?thesis unfolding rows' list_ex_iff by (metis (no_types, lifting) imageI set_map)
  qed
qed

lemma upsert_loop_keeps_keys:
  "upsert_loop rows st batch = Inr (rows', st') \<Longrightarrow> list_ex (matches i t) rows \<Longrightarrow>
   list_ex (matches i t) rows'"
proof (induction batch arbitrary: rows st)
  case Nil
  then show ?case by simp
next
  case (Cons x xs)
  show ?case
  proof (cases "try_body rows x")
    case (Inl e)
    with Cons.prems obtain st2 where "upsert_loop rows st2 xs = Inr (rows', st')"
      by (auto simp: getitem_def Let_def split: option.splits)
    from Cons.IH[OF this Cons.prems(2)] show ?thesis .
  next
    case (Inr p)
    obtain r oc where p: "p = (r, oc)" by (cases p)
    with Inr Cons.prems(2) have k: "list_ex (matches i t) r"
      by (auto intro: try_body_keeps_keys)
    from Inr p Cons.prems(1) obtain st2 where "upsert_loop r st2 xs = Inr (rows', st')"
      by (cases oc) (auto simp: Let_def)
    from Cons.IH[OF this k] show ?thesis .
  qed
qed

lemma try_body_insert_storable:
  assumes "storable x" and "indicator x = Some i" and "type x = Some t"
    and "select_one rows i t = None"
  shows "\<exists>rows'. try_body rows x = Inr (rows', Inserted) \<and> list_ex (matches i t) rows'"
proof -
  from assms(1) obtain s d m where "source x = Some s" "date_collected x = Some d"
    "json_dumps (get_default (metadata x) (PDict [])) = Inr m"
    by (cases "json_dumps (get_default (metadata x) (PDict []))") (auto simp: storable_def)
  with assms(2-4) show ?thesis
    by (simp add: try_body_def bind_exn_def getitem_def sql_insert_def select_one_None_ex
        matches_def)
qed

lemma upsert_loop_persists:
  "upsert_loop rows st batch = Inr (rows', st') \<Longrightarrow> x \<in> set batch \<Longrightarrow> storable x \<Longrightarrow>
   indicator x = Some i \<Longrightarrow> type x = Some t \<Longrightarrow> list_ex (matches i t) rows'"
proof (induction batch arbitrary: rows st)
  case Nil
  then show ?case by simp
next
  case (Cons y ys)
  show ?case
  proof (cases "x = y")
    case True
    show ?thesis
    proof (cases "select_one rows i t")
      case None
      from try_body_insert_storable[OF Cons.prems(3,4,5) None] obtain r where
        r: "try_body rows x = Inr (r, Inserted)" "list_ex (matches i t) r" by blast
      with True Cons.prems(1) obtain st2 where "upsert_loop r st2 ys = Inr (rows', st')"
        by (auto simp: Let_def)
      from upsert_loop_keeps_keys[OF this r(2)] show ?thesis .
    next
      case (Some row)
      then have k: "list_ex (matches i t) rows"
        using select_one_Some[OF Some] by (auto simp: list_ex_iff)
      from Cons.prems(1) show ?thesis
        using upsert_loop_keeps_keys[OF Cons.prems(1) k] by simp
    qed
  next
    case False
    with Cons.prems(2) have xin: "x \<in> set ys" by simp
    show ?thesis
    proof (cases "try_body rows y")
      case (Inl e)
      with Cons.prems(1) obtain st2 where "upsert_loop rows st2 ys = Inr (rows', st')"
        by (auto simp: getitem_def Let_def split: option.splits)
      from Cons.IH[OF this xin Cons.prems(3,4,5)] show ?thesis .
    next
      case (Inr p)
      obtain r oc where p: "p = (r, oc)" by (cases p)
      from Inr p Cons.prems(1) obtain st2 where "upsert_loop r st2 ys = Inr (rows', st')"
        by (cases oc) (auto simp: Let_def)
      from Cons.IH[OF this xin Cons.prems(3,4,5)] show ?thesis .
    qed
  qed
qed

lemmas cycle_defs = run_collection_def collect_def log_collection_def sample_config_def
  quiet_api_def failing_otx_api_def

text \<open>
  Against claim C5 as stated: with every feed returning the empty list, the cycle returns
  \<^verbatim>\<open>no_data\<close> with zero statistics, and the log table, empty before, is empty after: no
  entry is written.
\<close>

theorem no_data_writes_no_log:
  "run_collection quiet_api (Returns sample_config) ''2024-01-06T09:00:00'' setup_schema =
     Inr (setup_schema,
          \<lparr>status = ''no_data'', stats = \<lparr>processed = 0, new = 0, updated = 0, errors = 0\<rparr>,
           collection_errors = [], total_collected = 0\<rparr>) \<and>
   collection_logs setup_schema = []"
  by (simp add: cycle_defs eval_defs)

text \<open>
  Claim C5, amended. When the collected list is empty, \<^verbatim>\<open>run_collection\<close> returns status
  \<^verbatim>\<open>no_data\<close> with statistics processed = new = updated = errors = 0 and leaves the
  store as it was: no row and no collection log entry is written.
\<close>

theorem no_data_cycle:
  "fst (collect api cfg) = [] \<Longrightarrow>
   run_collection api cfg now db =
     Inr (db, \<lparr>status = ''no_data'', stats = \<lparr>processed = 0, new = 0, updated = 0, errors = 0\<rparr>,
               collection_errors = snd (collect api cfg), total_collected = 0\<rparr>)"
  by (simp add: run_collection_def zero_stats_def)

lemma quiet_collect: "collect quiet_api (Returns sample_config) = ([], [])"
  by (simp add: cycle_defs)

text \<open>A cycle without data on a store that holds a row.\<close>

theorem no_data_cycle_witness:
  "fst (collect quiet_api (Returns sample_config)) = [] \<and>
   run_collection quiet_api (Returns sample_config) ''2024-01-06T09:00:00'' sample_store =
     Inr (sample_store,
          \<lparr>status = ''no_data'', stats = \<lparr>processed = 0, new = 0, updated = 0, errors = 0\<rparr>,
           collection_errors = [], total_collected = 0\<rparr>)"
  using no_data_cycle[of quiet_api "Returns sample_config" "''2024-01-06T09:00:00''" sample_store]
  by (simp add: quiet_collect)

text \<open>
  The row found for a key keeps a last_seen that only grows, and the counts stay in the
  range of SQLite's INTEGER as long as the table's counts leave room for the batch.
\<close>

lemma select_one_append:
  "select_one (rows @ [r]) i t =
     (case select_one rows i t of Some q \<Rightarrow> Some q
      | None \<Rightarrow> if matches i t r then Some r else None)"
  by (induction rows) (simp_all add: select_one_def)

lemma select_one_map:
  assumes "\<And>r. matches i t (f r) = matches i t r"
  shows "select_one (map f rows) i t = map_option f (select_one rows i t)"
  using assms by (induction rows) (simp_all add: select_one_def)

lemma try_body_last_seen:
  assumes "try_body rows x = Inr (rows', oc)"
    and "select_one rows i t = Some r" and "d \<le> last_seen r"
  shows "\<exists>r'. select_one rows' i t = Some r' \<and> d \<le> last_seen r'"
proof -
  from try_body_Inr[OF assms(1)] obtain i' t' s d' m where
    c: "case select_one rows i' t' of
        None \<Rightarrow> oc = Inserted \<and>
          rows' = rows @ [\<lparr>indicator_col = i', type_col = t', source_col = s,
                        first_seen = d', last_seen = d', seen_count = 1,
                        confidence_col = get_default (confidence x) ''medium'',
                        threat_level_col = get_default (threat_level x) ''medium'',
                        metadata_col = m\<rparr>]
      | Some row \<Rightarrow> oc = Updated \<and>
          rows' = map (\<lambda>r. if indicator_col r = i' \<and> type_col r = t'
                    then r\<lparr>last_seen := max (last_seen row) d',
                           seen_count := seen_count row + 1, source_col := s,
                           confidence_col := get_default (confidence x) ''medium'',
                           threat_level_col := get_default (threat_level x) ''medium'',
                           metadata_col := m\<rparr>
                    else r) rows"
    by blast
  show ?thesis
  proof (cases "select_one rows i' t'")
    case None
    with c assms(2,3) show ?thesis by (simp add: select_one_append)
  next
    case (Some row)
    let ?f = "\<lambda>r. if indicator_col r = i' \<and> type_col r = t'
                    then r\<lparr>last_seen := max (last_seen row) d',
                           seen_count := seen_count row + 1, source_col := s,
                           confidence_col := get_default (confidence x) ''medium'',
                           threat_level_col := get_default (threat_level x) ''medium'',
                           metadata_col := m\<rparr>
                    else r"
    from c Some have rows': "rows' = map ?f rows" by simp
    have k: "matches i t (?f q) = matches i t q" for q by (simp add: matches_def)
    have sel: "select_one rows' i t = Some (?f r)"
      unfolding rows' using select_one_map[of i t ?f rows, OF k] assms(2) by simp
    have "d \<le> last_seen (?f r)"
    proof (cases "indicator_col r = i' \<and> type_col r = t'")
      case True
      with select_one_Some[OF assms(2)] have "i = i'" "t = t'" by (auto simp: matches_def)
      with Some assms(2) have "row = r" by simp
      with True assms(3) show ?thesis by (simp add: le_max_iff_disj)
    next
      case False
      then have "?f r = r" by auto
      with assms(3) show ?thesis by simp
    qed
    with sel show ?thesis by blast
  qed
qed

lemma upsert_loop_last_seen:
  "upsert_loop rows st batch = Inr (rows', st') \<Longrightarrow> select_one rows i t = Some r \<Longrightarrow>
   d \<le> last_seen r \<Longrightarrow> \<exists>r'. select_one rows' i t = Some r' \<and> d \<le> last_seen r'"
proof (induction batch arbitrary: rows st r)
  case Nil
  then show ?case by simp
next
  case (Cons x xs)
  show ?case
  proof (cases "try_body rows x")
    case (Inl e)
    with Cons.prems(1) obtain st2 where "upsert_loop rows st2 xs = Inr (rows', st')"
      by (auto simp: getitem_def Let_def split: option.splits)
    from Cons.IH[OF this Cons.prems(2,3)] show ?thesis .
  next
    case (Inr p)
    obtain rows1 oc where p: "p = (rows1, oc)" by (cases p)
    from try_body_last_seen[OF Inr[unfolded p] Cons.prems(2,3)] obtain r1 where
      r1: "select_one rows1 i t = Some r1" "d \<le> last_seen r1" by blast
    from Inr p Cons.prems(1) obtain st2 where "upsert_loop rows1 st2 xs = Inr (rows', st')"
      by (cases oc) (auto simp: Let_def)
    from Cons.IH[OF this r1] show ?thesis .
  qed
qed

lemma try_body_counts:
  assumes "try_body rows x = Inr (rows', oc)"
    and "\<forall>r\<in>set rows. 0 \<le> seen_count r \<and> seen_count r + (n + 1) < 2 ^ 63" and "0 \<le> n"
    and "n + 1 < 2 ^ 63"
  shows "\<forall>r\<in>set rows'. 0 \<le> seen_count r \<and> seen_count r + n < 2 ^ 63"
proof -
  from try_body_Inr[OF assms(1)] obtain i' t' s d' m where
    c: "case select_one rows i' t' of
        None \<Rightarrow> oc = Inserted \<and>
          rows' = rows @ [\<lparr>indicator_col = i', type_col = t', source_col = s,
                        first_seen = d', last_seen = d', seen_count = 1,
                        confidence_col = get_default (confidence x) ''medium'',
                        threat_level_col = get_default (threat_level x) ''medium'',
                        metadata_col = m\<rparr>]
      | Some row \<Rightarrow> oc = Updated \<and>
          rows' = map (\<lambda>r. if indicator_col r = i' \<and> type_col r = t'
                    then r\<lparr>last_seen := max (last_seen row) d',
                           seen_count := seen_count row + 1, source_col := s,
                           confidence_col := get_default (confidence x) ''medium'',
                           threat_level_col := get_default (threat_level x) ''medium'',
                           metadata_col := m\<rparr>
                    else r) rows"
    by blast
  show ?thesis
  proof (cases "select_one rows i' t'")
    case None
    with c assms(2,4) show ?thesis by auto
  next
    case (Some row)
    from select_one_Some[OF Some] assms(2)
    have "0 \<le> seen_count row" "seen_count row + (n + 1) < 2 ^ 63" by auto
    with c Some assms(2) show ?thesis by auto
  qed
qed

lemma try_body_storable:
  assumes "storable x" and "indicator x = Some i" and "type x = Some t"
    and "date_collected x = Some d"
    and "\<forall>r\<in>set rows. 0 \<le> seen_count r \<and> seen_count r + 1 < 2 ^ 63"
  shows "\<exists>rows' oc r. try_body rows x = Inr (rows', oc) \<and>
           select_one rows' i t = Some r \<and> d \<le> last_seen r"
proof -
  from assms(1) obtain s m where f: "source x = Some s"
    "json_dumps (get_default (metadata x) (PDict [])) = Inr m"
    by (cases "json_dumps (get_default (metadata x) (PDict []))") (auto simp: storable_def)
  show ?thesis
  proof (cases "select_one rows i t")
    case None
    with assms(2-4) f show ?thesis
      by (simp add: try_body_def bind_exn_def getitem_def sql_insert_def select_one_None_ex
          select_one_append matches_def)
  next
    case (Some row)
    let ?f = "\<lambda>r. if matches i t r
               then r\<lparr>last_seen := max (last_seen row) d, seen_count := seen_count row + 1,
                      source_col := s,
                      confidence_col := get_default (confidence x) ''medium'',
                      threat_level_col := get_default (threat_level x) ''medium'',
                      metadata_col := m\<rparr>
               else r"
    from select_one_Some[OF Some] assms(5)
    have cnt: "- (2 ^ 63) \<le> seen_count row + 1" "seen_count row + 1 < 2 ^ 63"
      and mt: "matches i t row" by auto
    have tb: "try_body rows x = Inr (map ?f rows, Updated)"
      using assms(2-4) f Some cnt
      by (simp add: try_body_def bind_exn_def getitem_def bind_integer_def sql_update_def Let_def)
    have k: "matches i t (?f q) = matches i t q" for q by (simp add: matches_def)
    have "select_one (map ?f rows) i t = Some (?f row)"
      using select_one_map[of i t ?f rows, OF k] Some by simp
    moreover have "d \<le> last_seen (?f row)" using mt by (simp add: le_max_iff_disj)
    ultimately show ?thesis using tb by blast
  qed
qed

lemma upsert_loop_observed:
  "upsert_loop rows st batch = Inr (rows', st') \<Longrightarrow>
   \<forall>r\<in>set rows. 0 \<le> seen_count r \<and> seen_count r + int (length batch) < 2 ^ 63 \<Longrightarrow>
   int (length batch) < 2 ^ 63 \<Longrightarrow>
   x \<in> set batch \<Longrightarrow> storable x \<Longrightarrow> indicator x = Some i \<Longrightarrow> type x = Some t \<Longrightarrow>
   date_collected x = Some d \<Longrightarrow>
   \<exists>r. select_one rows' i t = Some r \<and> d \<le> last_seen r"
proof (induction batch arbitrary: rows st)
  case Nil
  then show ?case by simp
next
  case (Cons y ys)
  have b1: "\<forall>r\<in>set rows. 0 \<le> seen_count r \<and> seen_count r + (int (length ys) + 1) < 2 ^ 63"
    using Cons.prems(2) by (simp add: add.commute)
  have b2: "int (length ys) + 1 < 2 ^ 63" using Cons.prems(3) by simp
  have b3: "\<forall>r\<in>set rows. 0 \<le> seen_count r \<and> seen_count r + 1 < 2 ^ 63"
    using b1 by fastforce
  show ?case
  proof (cases "x = y")
    case True
    from try_body_storable[OF Cons.prems(5,6,7,8) b3] obtain rows1 oc r where
      t: "try_body rows x = Inr (rows1, oc)" and r: "select_one rows1 i t = Some r" "d \<le> last_seen r"
      by blast
    from t True Cons.prems(1) obtain st2 where "upsert_loop rows1 st2 ys = Inr (rows', st')"
      by (cases oc) (auto simp: Let_def)
    from upsert_loop_last_seen[OF this r] show ?thesis .
  next
    case False
    with Cons.prems(4) have xin: "x \<in> set ys" by simp
    show ?thesis
    proof (cases "try_body rows y")
      case (Inl e)
      with Cons.prems(1) obtain st2 where l: "upsert_loop rows st2 ys = Inr (rows', st')"
        by (auto simp: getitem_def Let_def split: option.splits)
      have "\<forall>r\<in>set rows. 0 \<le> seen_count r \<and> seen_count r + int (length ys) < 2 ^ 63"
        using b1 by fastforce
      moreover have "int (length ys) < 2 ^ 63" using b2 by simp
      ultimately show ?thesis using Cons.IH[OF l _ _ xin Cons.prems(5,6,7,8)] by blast
    next
      case (Inr p)
      obtain rows1 oc where p: "p = (rows1, oc)" by (cases p)
      from Inr p Cons.prems(1) obtain st2 where l: "upsert_loop rows1 st2 ys = Inr (rows', st')"
        by (cases oc) (auto simp: Let_def)
      have "\<forall>r\<in>set rows1. 0 \<le> seen_count r \<and> seen_count r + int (length ys) < 2 ^ 63"
        using try_body_counts[OF Inr[unfolded p] b1 _ b2] by simp
      moreover have "int (length ys) < 2 ^ 63" using b2 by simp
      ultimately show ?thesis using Cons.IH[OF l _ _ xin Cons.prems(5,6,7,8)] by blast
    qed
  qed
qed

text \<open>
  Claim C8. For a cycle whose collected records are normalized (each carries its indicator),
  \<^verbatim>\<open>run_collection\<close> returns; the status is \<^verbatim>\<open>no_data\<close> exactly when the collected
  list is empty and \<^verbatim>\<open>success\<close> exactly when it is not, whatever fetches failed, the
  failures being reported in the errors of the result. The collected list holds the records
  of every fetch that returned, a fetch that raised contributing none. When it is not empty,
  the store the cycle leaves is the one \<^verbatim>\<open>insert_or_update_iocs\<close> leaves for the whole
  collected list, with one log entry added, and the statistics of the result are those of
  that upsert; when it is empty the store is unchanged. Every storable record of the list
  has a row with its (indicator, type) in the store the cycle leaves, and, as long as the
  counts of the table leave room for the batch in SQLite's INTEGER, the row found for its
  key has a last_seen that is at least the record's date_collected.
\<close>

theorem cycle_status:
  assumes "\<forall>x\<in>set (fst (collect api cfg)). indicator x \<noteq> None"
  shows "\<exists>db' r. run_collection api cfg now db = Inr (db', r) \<and>
     (status r = ''no_data'' \<longleftrightarrow> fst (collect api cfg) = []) \<and>
     (status r = ''success'' \<longleftrightarrow> fst (collect api cfg) \<noteq> []) \<and>
     collection_errors r = snd (collect api cfg) \<and>
     (\<forall>c. cfg = Returns c \<longrightarrow>
        fst (collect api cfg) =
          concat (map (\<lambda>d. returned (fetch_otx api d)) (THREAT_DOMAINS c))
          @ returned (fetch_abuseipdb api (ABUSEIPDB_LIMIT c))
          @ returned (fetch_malwarebazaar api (MALWAREBazaar_LIMIT c))) \<and>
     (fst (collect api cfg) \<noteq> [] \<longrightarrow>
        (\<exists>db1. insert_or_update_iocs db (fst (collect api cfg)) = Inr (db1, stats r) \<and>
           db' = log_collection now db1 ''CTI_Collector'' (stats r)
                   (if snd (collect api cfg) \<noteq> [] then Some (join ''; '' (snd (collect api cfg)))
                    else None) \<and>
           iocs db' = iocs db1 \<and>
           total_collected r = int (length (fst (collect api cfg))))) \<and>
     (fst (collect api cfg) = [] \<longrightarrow> db' = db \<and> stats r = zero_stats \<and> total_collected r = 0) \<and>
     (\<forall>x\<in>set (fst (collect api cfg)). \<forall>i t.
        storable x \<and> indicator x = Some i \<and> type x = Some t \<longrightarrow>
        list_ex (matches i t) (iocs db')) \<and>
     ((\<forall>q\<in>set (iocs db). 0 \<le> seen_count q \<and>
          seen_count q + int (length (fst (collect api cfg))) < 2 ^ 63) \<and>
      int (length (fst (collect api cfg))) < 2 ^ 63 \<longrightarrow>
      (\<forall>x\<in>set (fst (collect api cfg)). \<forall>i t d.
         storable x \<and> indicator x = Some i \<and> type x = Some t \<and> date_collected x = Some d \<longrightarrow>
         (\<exists>row. select_one (iocs db') i t = Some row \<and> d \<le> last_seen row)))"
proof (cases "fst (collect api cfg) = []")
  case True
  then show ?thesis
    by (auto simp: run_collection_def collect_fst)
next
  case False
  from upsert_loop_returns[OF assms, of "iocs db" zero_stats]
  obtain rows st where l: "upsert_loop (iocs db) zero_stats (fst (collect api cfg)) = Inr (rows, st)"
    by blast
  define db1 where "db1 = db\<lparr>iocs := rows\<rparr>"
  have u: "insert_or_update_iocs db (fst (collect api cfg)) = Inr (db1, st)"
    by (simp add: insert_or_update_iocs_def l db1_def)
  have p: "\<forall>x\<in>set (fst (collect api cfg)). \<forall>i t.
        storable x \<and> indicator x = Some i \<and> type x = Some t \<longrightarrow> list_ex (matches i t) rows"
    using upsert_loop_persists[OF l] by blast
  have o: "\<forall>x\<in>set (fst (collect api cfg)). \<forall>i t d.
         storable x \<and> indicator x = Some i \<and> type x = Some t \<and> date_collected x = Some d \<longrightarrow>
         (\<exists>row. select_one rows i t = Some row \<and> d \<le> last_seen row)"
    if "\<forall>q\<in>set (iocs db). 0 \<le> seen_count q \<and>
          seen_count q + int (length (fst (collect api cfg))) < 2 ^ 63"
      and "int (length (fst (collect api cfg))) < 2 ^ 63"
    using upsert_loop_observed[OF l that] by blast
  let ?errs = "snd (collect api cfg)"
  let ?db' = "log_collection now db1 ''CTI_Collector'' st
                (if ?errs \<noteq> [] then Some (join ''; '' ?errs) else None)"
  let ?r = "\<lparr>status = ''success'', stats = st, collection_errors = ?errs,
                  total_collected = int (length (fst (collect api cfg)))\<rparr>"
  have r: "run_collection api cfg now db = Inr (?db', ?r)"
    using False u by (simp add: run_collection_def Let_def)
  have i: "iocs ?db' = rows" "iocs db1 = rows" by (simp_all add: log_collection_def db1_def)
  have t: "\<exists>db1'. insert_or_update_iocs db (fst (collect api cfg)) = Inr (db1', stats ?r) \<and>
           ?db' = log_collection now db1' ''CTI_Collector'' (stats ?r)
                   (if ?errs \<noteq> [] then Some (join ''; '' ?errs) else None) \<and>
           iocs ?db' = iocs db1' \<and>
           total_collected ?r = int (length (fst (collect api cfg)))"
    using u i by (intro exI[of _ db1]) simp
  show ?thesis
  proof (intro exI[of _ ?db'] exI[of _ ?r] conjI)
    show "run_collection api cfg now db = Inr (?db', ?r)" by (rule r)
    show "(status ?r = ''no_data'') = (fst (collect api cfg) = [])" using False by simp
    show "(status ?r = ''success'') = (fst (collect api cfg) \<noteq> [])" using False by simp
    show "collection_errors ?r = ?errs" by simp
    show "\<forall>c. cfg = Returns c \<longrightarrow>
        fst (collect api cfg) =
          concat (map (\<lambda>d. returned (fetch_otx api d)) (THREAT_DOMAINS c))
          @ returned (fetch_abuseipdb api (ABUSEIPDB_LIMIT c))
          @ returned (fetch_malwarebazaar api (MALWAREBazaar_LIMIT c))"
      by (auto simp: collect_fst)
    show "fst (collect api cfg) \<noteq> [] \<longrightarrow>
        (\<exists>db1. insert_or_update_iocs db (fst (collect api cfg)) = Inr (db1, stats ?r) \<and>
           ?db' = log_collection now db1 ''CTI_Collector'' (stats ?r)
                   (if ?errs \<noteq> [] then Some (join ''; '' ?errs) else None) \<and>
           iocs ?db' = iocs db1 \<and>
           total_collected ?r = int (length (fst (collect api cfg))))"
      using t by blast
    show "fst (collect api cfg) = [] \<longrightarrow>
        ?db' = db \<and> stats ?r = zero_stats \<and> total_collected ?r = 0"
      using False by simp
    show "\<forall>x\<in>set (fst (collect api cfg)). \<forall>i t.
        storable x \<and> indicator x = Some i \<and> type x = Some t \<longrightarrow>
        list_ex (matches i t) (iocs ?db')"
      using p by (simp only: i)
    show "(\<forall>q\<in>set (iocs db). 0 \<le> seen_count q \<and>
          seen_count q + int (length (fst (collect api cfg))) < 2 ^ 63) \<and>
      int (length (fst (collect api cfg))) < 2 ^ 63 \<longrightarrow>
      (\<forall>x\<in>set (fst (collect api cfg)). \<forall>i t d.
         storable x \<and> indicator x = Some i \<and> type x = Some t \<and> date_collected x = Some d \<longrightarrow>
         (\<exists>row. select_one (iocs ?db') i t = Some row \<and> d \<le> last_seen row))"
      using o by (simp only: i) blast
  qed
qed

lemma failing_otx_collect:
  "collect failing_otx_api (Returns sample_config) =
     ([sample_ioc ''AbuseIPDB'' ''2024-01-06T08:00:00''],
      [''OTX collection failed for urlhaus.abuse.ch: timed out'',
       ''OTX collection failed for phishtank.com: timed out''])"
  by (simp add: cycle_defs)

lemma failing_otx_upsert:
  "insert_or_update_iocs sample_store [sample_ioc ''AbuseIPDB'' ''2024-01-06T08:00:00''] =
     Inr (\<lparr>iocs =
            [\<lparr>indicator_col = ''203.0.113.5'', type_col = ''IP'', source_col = ''AbuseIPDB'',
              first_seen = ''2024-01-05T00:00:00'', last_seen = ''2024-01-06T08:00:00'',
              seen_count = 3, confidence_col = ''low'', threat_level_col = ''medium'',
              metadata_col = ''{\"isp\": \"x\"}''\<rparr>],
           collection_logs = []\<rparr>,
          \<lparr>processed = 1, new = 0, updated = 1, errors = 0\<rparr>)"
  by (simp add: eval_defs sample_store_def)

text \<open>
  Both OTX fetches fail and AbuseIPDB reports an address the store already holds: the status
  is success, the row of the address has the later last_seen, one more observation and the
  new source, and the log entry carries the two failures.
\<close>

theorem cycle_status_witness:
  "list_all (\<lambda>x. indicator x \<noteq> None) (fst (collect failing_otx_api (Returns sample_config))) \<and>
   run_collection failing_otx_api (Returns sample_config) ''2024-01-06T09:00:00'' sample_store =
     Inr (\<lparr>iocs =
            [\<lparr>indicator_col = ''203.0.113.5'', type_col = ''IP'', source_col = ''AbuseIPDB'',
              first_seen = ''2024-01-05T00:00:00'', last_seen = ''2024-01-06T08:00:00'',
              seen_count = 3, confidence_col = ''low'', threat_level_col = ''medium'',
              metadata_col = ''{\"isp\": \"x\"}''\<rparr>],
           collection_logs =
            [\<lparr>log_source = ''CTI_Collector'', collection_time = ''2024-01-06T09:00:00'',
              iocs_processed = 1, iocs_new = 0, iocs_updated = 1,
              log_errors = Some ''OTX collection failed for urlhaus.abuse.ch: timed out; OTX collection failed for phishtank.com: timed out'',
              log_status = ''error''\<rparr>]\<rparr>,
          \<lparr>status = ''success'',
           stats = \<lparr>processed = 1, new = 0, updated = 1, errors = 0\<rparr>,
           collection_errors =
             [''OTX collection failed for urlhaus.abuse.ch: timed out'',
              ''OTX collection failed for phishtank.com: timed out''],
           total_collected = 1\<rparr>)"
proof -
  have h: "\<forall>x\<in>set (fst (collect failing_otx_api (Returns sample_config))). indicator x \<noteq> None"
    by (simp add: failing_otx_collect sample_ioc_def)
  from cycle_status[OF h, of "''2024-01-06T09:00:00''" sample_store]
  obtain db' r where
    r: "run_collection failing_otx_api (Returns sample_config) ''2024-01-06T09:00:00''
          sample_store = Inr (db', r)"
    and st: "status r = ''success'' \<longleftrightarrow> fst (collect failing_otx_api (Returns sample_config)) \<noteq> []"
    and er: "collection_errors r = snd (collect failing_otx_api (Returns sample_config))"
    and tie: "fst (collect failing_otx_api (Returns sample_config)) \<noteq> [] \<longrightarrow>
        (\<exists>db1. insert_or_update_iocs sample_store
                  (fst (collect failing_otx_api (Returns sample_config))) = Inr (db1, stats r) \<and>
           db' = log_collection ''2024-01-06T09:00:00'' db1 ''CTI_Collector'' (stats r)
                   (if snd (collect failing_otx_api (Returns sample_config)) \<noteq> []
                    then Some (join ''; '' (snd (collect failing_otx_api (Returns sample_config))))
                    else None) \<and>
           iocs db' = iocs db1 \<and>
           total_collected r =
             int (length (fst (collect failing_otx_api (Returns sample_config)))))"
    by blast
  from tie obtain db1 where
    u: "insert_or_update_iocs sample_store [sample_ioc ''AbuseIPDB'' ''2024-01-06T08:00:00''] =
          Inr (db1, stats r)"
    and d: "db' = log_collection ''2024-01-06T09:00:00'' db1 ''CTI_Collector'' (stats r)
              (Some (join ''; ''
                 [''OTX collection failed for urlhaus.abuse.ch: timed out'',
                  ''OTX collection failed for phishtank.com: timed out'']))"
    and tc: "total_collected r = 1"
    by (auto simp: failing_otx_collect)
  from u have s: "stats r = \<lparr>processed = 1, new = 0, updated = 1, errors = 0\<rparr>"
    and db1: "db1 = \<lparr>iocs =
            [\<lparr>indicator_col = ''203.0.113.5'', type_col = ''IP'', source_col = ''AbuseIPDB'',
              first_seen = ''2024-01-05T00:00:00'', last_seen = ''2024-01-06T08:00:00'',
              seen_count = 3, confidence_col = ''low'', threat_level_col = ''medium'',
              metadata_col = ''{\"isp\": \"x\"}''\<rparr>],
           collection_logs = []\<rparr>"
    by (simp_all add: failing_otx_upsert)
  have res: "r = \<lparr>status = ''success'',
           stats = \<lparr>processed = 1, new = 0, updated = 1, errors = 0\<rparr>,
           collection_errors =
             [''OTX collection failed for urlhaus.abuse.ch: timed out'',
              ''OTX collection failed for phishtank.com: timed out''],
           total_collected = 1\<rparr>"
    using st er s tc by (cases r) (simp add: failing_otx_collect)
  have dbv: "db' = \<lparr>iocs =
            [\<lparr>indicator_col = ''203.0.113.5'', type_col = ''IP'', source_col = ''AbuseIPDB'',
              first_seen = ''2024-01-05T00:00:00'', last_seen = ''2024-01-06T08:00:00'',
              seen_count = 3, confidence_col = ''low'', threat_level_col = ''medium'',
              metadata_col = ''{\"isp\": \"x\"}''\<rparr>],
           collection_logs =
            [\<lparr>log_source = ''CTI_Collector'', collection_time = ''2024-01-06T09:00:00'',
              iocs_processed = 1, iocs_new = 0, iocs_updated = 1,
              log_errors = Some ''OTX collection failed for urlhaus.abuse.ch: timed out; OTX collection failed for phishtank.com: timed out'',
              log_status = ''error''\<rparr>]\<rparr>"
    unfolding d db1 s by (simp add: log_collection_def)
  from r res dbv h show ?thesis
    by (simp only: list_all_iff)
qed

section \<open>Properties of type detection and normalization\<close>

text \<open>An address has a dot or a colon; a string of hexadecimal digits has neither.\<close>

lemma split_no_sep: "sep \<notin> set s \<Longrightarrow> split sep s = [s]"
  by (induction s) auto

lemma strip_id: "s = [] \<or> (\<not> isspace (hd s) \<and> \<not> isspace (last s)) \<Longrightarrow> strip s = s"
proof (cases s)
  case Nil
  then show ?thesis by (simp add: strip_def)
next
  case (Cons a t)
  assume "s = [] \<or> (\<not> isspace (hd s) \<and> \<not> isspace (last s))"
  with Cons have h: "\<not> isspace a" and l: "\<not> isspace (last s)" by auto
  from Cons h have d: "dropWhile isspace s = s" by simp
  from Cons have "rev s \<noteq> []" by simp
  then obtain b u where r: "rev s = b # u" by (cases "rev s") auto
  with Cons have "last s = b" by (metis hd_rev list.sel(1) list.distinct(1))
  with l r have "dropWhile isspace (rev s) = rev s" by simp
  with d show ?thesis by (simp add: strip_def)
qed

lemma ipv4_has_dot: "ipv4_address s = Some a \<Longrightarrow> CHR ''.'' \<in> set s"
  by (rule ccontr) (auto simp: ipv4_address_def ipv4_int_from_string_def split_no_sep Let_def split: if_splits)

lemma ipv6_has_colon: "ipv6_address s = Some a \<Longrightarrow> CHR '':'' \<in> set s"
proof (rule ccontr)
  assume a: "ipv6_address s = Some a" and n: "CHR '':'' \<notin> set s"
  have "CHR '':'' \<notin> set (takeWhile (\<lambda>c. c \<noteq> CHR ''%'') s)"
    using n by (meson set_takeWhileD)
  then have "ipv6_int_from_string (takeWhile (\<lambda>c. c \<noteq> CHR ''%'') s) = None"
    by (simp add: ipv6_int_from_string_def split_no_sep Let_def)
  with a show False
    by (auto simp: ipv6_address_def split_scope_id_def Let_def split: if_splits option.splits)
qed

lemma ip_address_has_sep:
  "ip_address s \<noteq> None \<Longrightarrow> CHR ''.'' \<in> set s \<or> CHR '':'' \<in> set s"
  by (auto simp: ip_address_def split: option.splits dest: ipv4_has_dot ipv6_has_colon)

lemma hex_not_space: "c \<in> set hexdigits \<Longrightarrow> \<not> isspace c"
  by (auto simp: hexdigits_def isspace_def whitespace_def)

lemma hex_string_strip:
  assumes "list_all (\<lambda>c. c \<in> set hexdigits) v"
  shows "strip v = v"
proof (rule strip_id, cases v)
  case Nil
  then show "v = [] \<or> \<not> isspace (hd v) \<and> \<not> isspace (last v)" by simp
next
  case (Cons a t)
  then have "hd v \<in> set v" "last v \<in> set v" by auto
  with assms show "v = [] \<or> \<not> isspace (hd v) \<and> \<not> isspace (last v)"
    by (auto simp: list_all_iff hex_not_space)
qed

lemma hex_no_sep: "CHR ''.'' \<notin> set hexdigits" "CHR '':'' \<notin> set hexdigits"
  by (simp_all add: hexdigits_def)

lemma hex_string_not_ip:
  assumes "list_all (\<lambda>c. c \<in> set hexdigits) v"
  shows "\<not> is_ip v"
proof
  assume "is_ip v"
  then have "CHR ''.'' \<in> set v \<or> CHR '':'' \<in> set v"
    using ip_address_has_sep[of v] by (simp add: is_ip_def hex_string_strip[OF assms])
  moreover from assms have "\<forall>c\<in>set v. c \<in> set hexdigits"
    by (simp add: list_all_iff)
  ultimately show False
    using hex_no_sep by blast
qed

lemma hex_string_is_hash:
  assumes "list_all (\<lambda>c. c \<in> set hexdigits) v" and "length v = 32 \<or> length v = 40 \<or> length v = 64"
  shows "is_hash v"
  using assms by (auto simp: is_hash_def hash_pattern_def hex_string_strip)

text \<open>
  Claim C3. \<^verbatim>\<open>detect_type\<close> returns the type of the first rule that holds, in the order
  IP, Hash, URL, Email, Domain: each type is returned exactly when its rule holds and no
  earlier one does, and Unknown when the string is empty or no rule holds. In particular
  every string of exactly 32, 40 or 64 hexadecimal digits, in either case and also when all
  of them are decimal digits, is a Hash, never a Domain and never Unknown.
\<close>

theorem detect_type_order:
  "(detect_type v = ''IP'' \<longleftrightarrow> v \<noteq> [] \<and> is_ip v) \<and>
   (detect_type v = ''Hash'' \<longleftrightarrow> v \<noteq> [] \<and> \<not> is_ip v \<and> is_hash v) \<and>
   (detect_type v = ''URL'' \<longleftrightarrow> v \<noteq> [] \<and> \<not> is_ip v \<and> \<not> is_hash v \<and> is_url v) \<and>
   (detect_type v = ''Email'' \<longleftrightarrow>
      v \<noteq> [] \<and> \<not> is_ip v \<and> \<not> is_hash v \<and> \<not> is_url v \<and> is_email v) \<and>
   (detect_type v = ''Domain'' \<longleftrightarrow>
      v \<noteq> [] \<and> \<not> is_ip v \<and> \<not> is_hash v \<and> \<not> is_url v \<and> \<not> is_email v \<and> is_domain v) \<and>
   (detect_type v = ''Unknown'' \<longleftrightarrow>
      v = [] \<or> (\<not> is_ip v \<and> \<not> is_hash v \<and> \<not> is_url v \<and> \<not> is_email v \<and> \<not> is_domain v)) \<and>
   ((length v = 32 \<or> length v = 40 \<or> length v = 64) \<and> list_all (\<lambda>c. c \<in> set hexdigits) v \<longrightarrow>
      detect_type v = ''Hash'' \<and> detect_type v \<noteq> ''Domain'' \<and> detect_type v \<noteq> ''Unknown'')"
proof -
  have "detect_type v = ''Hash''"
    if "length v = 32 \<or> length v = 40 \<or> length v = 64" "list_all (\<lambda>c. c \<in> set hexdigits) v"
  proof -
    from that have "v \<noteq> []" by auto
    with hex_string_not_ip[OF that(2)] hex_string_is_hash[OF that(2,1)]
    show ?thesis by (simp add: detect_type_def)
  qed
  then show ?thesis by (auto simp: detect_type_def)
qed

text \<open>Thirty-two decimal digits are a Hash.\<close>

theorem detect_type_order_witness:
  "length all_digit_hash = 32 \<and> list_all (\<lambda>c. c \<in> set hexdigits) all_digit_hash \<and>
   list_all (\<lambda>c. c \<in> set digits) all_digit_hash \<and>
   detect_type all_digit_hash = ''Hash''"
  using detect_type_order[of all_digit_hash]
  by (simp add: all_digit_hash_def hexdigits_def digits_def)

text \<open>The tests of the normalizer on an address with capitals and on its lower case.\<close>

lemma ex_strip:
  "strip ''User@Example.COM'' = ''User@Example.COM''"
  "strip ''user@example.com'' = ''user@example.com''"
  by (simp_all add: strip_def isspace_def whitespace_def)

lemma ex_not_ip: "\<not> is_ip ''User@Example.COM''" "\<not> is_ip ''user@example.com''"
proof -
  have "ipv4_address ''User@Example.COM'' = None" "ipv4_address ''user@example.com'' = None"
    by (simp_all add: ipv4_address_def ipv4_int_from_string_def)
  moreover have "ipv6_address ''User@Example.COM'' = None"
    using ipv6_has_colon[of "''User@Example.COM''"] by (cases "ipv6_address ''User@Example.COM''") auto
  moreover have "ipv6_address ''user@example.com'' = None"
    using ipv6_has_colon[of "''user@example.com''"] by (cases "ipv6_address ''user@example.com''") auto
  ultimately show "\<not> is_ip ''User@Example.COM''" "\<not> is_ip ''user@example.com''"
    by (simp_all add: is_ip_def ex_strip ip_address_def)
qed

lemma ex_not_hash: "\<not> is_hash ''User@Example.COM''" "\<not> is_hash ''user@example.com''"
  by (simp_all add: is_hash_def hash_pattern_def ex_strip)

lemma ex_not_url: "\<not> is_url ''User@Example.COM''" "\<not> is_url ''user@example.com''"
  by (simp_all add: is_url_def startswith_def ex_strip)

lemma ex_email: "is_email ''User@Example.COM''" "is_email ''user@example.com''"
  by (simp_all add: is_email_def email_body_def ex_strip ascii_letters_def digits_def)

lemma ex_domain: "is_domain ''User@Example.COM''"
  using ex_not_ip ex_not_url by (simp add: is_domain_def ex_strip startswith_def)

lemma ex_lower: "lower ''User@Example.COM'' = ''user@example.com''"
  by (simp add: lower_def lower_char_def upper_chars_def lower_chars_def)

lemma ex_type: "detect_type ''User@Example.COM'' = ''Email''" "detect_type ''user@example.com'' = ''Email''"
  using ex_not_ip ex_not_hash ex_not_url ex_email by (simp_all add: detect_type_def)

lemma ex_norm: "normalize_indicator ''User@Example.COM'' = ''user@example.com''"
  using ex_not_url(1) ex_domain by (simp add: normalize_indicator_def ex_strip ex_lower)

text \<open>
  Claim C4. The claim is that an input whose detected type is Email keeps its case. The
  code does otherwise on \<^verbatim>\<open>User@Example.COM\<close>: its detected type is Email, it has no
  whitespace to trim, and \<^verbatim>\<open>normalize_indicator\<close> returns it in lower case, because the
  test \<^verbatim>\<open>is_domain\<close>, which comes before any other in \<^verbatim>\<open>normalize_indicator\<close>, holds
  for it; the record \<^verbatim>\<open>normalize_ioc\<close> builds has the lower-case indicator and the type
  Email.
\<close>

theorem email_is_lowercased:
  "detect_type ''User@Example.COM'' = ''Email'' \<and>
   strip ''User@Example.COM'' = ''User@Example.COM'' \<and>
   normalize_indicator ''User@Example.COM'' = ''user@example.com'' \<and>
   indicator (normalize_ioc ''User@Example.COM'' ''TestFeed'' ''medium'' ''medium'' PNone
                ''2024-01-05T00:00:00'') = Some ''user@example.com'' \<and>
   type (normalize_ioc ''User@Example.COM'' ''TestFeed'' ''medium'' ''medium'' PNone
                ''2024-01-05T00:00:00'') = Some ''Email''"
  by (simp add: ex_type ex_strip ex_norm normalize_ioc_def)

text \<open>\<^verbatim>\<open>strip\<close> leaves no whitespace at either end, so a second strip changes nothing.\<close>

lemma dropWhile_last: "dropWhile P xs \<noteq> [] \<Longrightarrow> last (dropWhile P xs) = last xs"
  by (metis last_appendR takeWhile_dropWhile_id)

lemma strip_ends: "strip s = [] \<or> (\<not> isspace (hd (strip s)) \<and> \<not> isspace (last (strip s)))"
proof (cases "strip s = []")
  case True
  then show ?thesis by simp
next
  case False
  let ?t = "dropWhile isspace s"
  let ?u = "dropWhile isspace (rev ?t)"
  from False have u: "?u \<noteq> []" by (simp add: strip_def)
  have t: "?t \<noteq> []"
  proof
    assume "?t = []"
    with u show False by simp
  qed
  have "\<not> isspace (hd ?u)" using u by (rule hd_dropWhile)
  then have l: "\<not> isspace (last (strip s))" using u by (simp add: strip_def last_rev)
  have "last ?u = last (rev ?t)" using u by (rule dropWhile_last)
  also have "\<dots> = hd ?t" using t by (simp add: last_rev)
  finally have "hd (strip s) = hd ?t" using u by (simp add: strip_def hd_rev)
  moreover have "\<not> isspace (hd ?t)" using t by (rule hd_dropWhile)
  ultimately show ?thesis using l by simp
qed

lemma strip_idem: "strip (strip s) = strip s"
  using strip_ends[of s] by (rule strip_id)

lemma is_strip:
  "is_ip (strip v) = is_ip v" "is_hash (strip v) = is_hash v" "is_url (strip v) = is_url v"
  "is_domain (strip v) = is_domain v" "is_email (strip v) = is_email v"
  by (simp_all add: is_ip_def is_hash_def is_url_def is_domain_def is_email_def strip_idem)

text \<open>
  What holds of the two types: an input of type Unknown is returned trimmed and unchanged;
  an input of type Email is lower-cased exactly when \<^verbatim>\<open>is_domain\<close> holds for it.
\<close>

lemma unknown_keeps_text: "detect_type x = ''Unknown'' \<Longrightarrow> normalize_indicator x = strip x"
proof (cases "x = []")
  case True
  then show ?thesis
    by (simp add: normalize_indicator_def strip_def is_url_def is_domain_def is_hash_def is_ip_def
        startswith_def hash_pattern_def ip_address_def ipv4_address_def ipv4_int_from_string_def
        ipv6_address_def split_scope_id_def ipv6_int_from_string_def)
next
  case False
  assume "detect_type x = ''Unknown''"
  with False have "\<not> is_ip x" "\<not> is_hash x" "\<not> is_url x" "\<not> is_domain x"
    by (auto simp: detect_type_def split: if_splits)
  then show ?thesis by (simp add: normalize_indicator_def is_strip)
qed

lemma email_follows_domain_rule:
  "detect_type x = ''Email'' \<Longrightarrow>
   normalize_indicator x = (if is_domain x then lower (strip x) else strip x)"
proof -
  assume "detect_type x = ''Email''"
  then have "\<not> is_ip x" "\<not> is_hash x" "\<not> is_url x"
    by (auto simp: detect_type_def split: if_splits)
  then show ?thesis by (simp add: normalize_indicator_def is_strip)
qed

section \<open>Idempotence of the normalization\<close>

subsection \<open>Lower case and the tests of the normalizer\<close>

lemma case_table_length: "length upper_chars = length lower_chars"
  by (simp add: upper_chars_def lower_chars_def)

lemma lower_char_not_upper: "c \<notin> set upper_chars \<Longrightarrow> lower_char c = c"
proof -
  assume "c \<notin> set upper_chars"
  then have "c \<notin> fst ` set (zip upper_chars lower_chars)"
    by (metis case_table_length map_fst_zip set_map)
  then have "map_of (zip upper_chars lower_chars) c = None"
    by (simp add: map_of_eq_None_iff)
  then show ?thesis by (simp add: lower_char_def)
qed

lemma lower_char_upper: "c \<in> set upper_chars \<Longrightarrow> lower_char c \<in> set lower_chars"
proof -
  assume "c \<in> set upper_chars"
  then have "c \<in> fst ` set (zip upper_chars lower_chars)"
    by (metis case_table_length map_fst_zip set_map)
  then obtain d where d: "map_of (zip upper_chars lower_chars) c = Some d"
    by (metis map_of_eq_None_iff not_Some_eq)
  then have "(c, d) \<in> set (zip upper_chars lower_chars)" by (rule map_of_SomeD)
  then have "d \<in> set lower_chars" by (rule set_zip_rightD)
  with d show ?thesis by (simp add: lower_char_def)
qed

lemma lower_not_upper: "list_all (\<lambda>c. c \<notin> set upper_chars) lower_chars"
  by (simp add: upper_chars_def lower_chars_def)

lemma space_neutral:
  "list_all (\<lambda>c. c \<notin> set upper_chars \<and> c \<notin> set lower_chars) whitespace"
  by (simp add: upper_chars_def lower_chars_def whitespace_def)

lemma lower_char_idem: "lower_char (lower_char c) = lower_char c"
proof (cases "c \<in> set upper_chars")
  case True
  then have "lower_char c \<in> set lower_chars" by (rule lower_char_upper)
  with lower_not_upper have "lower_char c \<notin> set upper_chars" by (simp add: list_all_iff)
  then show ?thesis by (rule lower_char_not_upper)
next
  case False
  then show ?thesis by (simp add: lower_char_not_upper)
qed

lemma lower_char_neutral:
  assumes "c0 \<notin> set upper_chars" and "c0 \<notin> set lower_chars"
  shows "lower_char c = c0 \<longleftrightarrow> c = c0"
proof
  assume "c = c0"
  with assms(1) show "lower_char c = c0" by (simp add: lower_char_not_upper)
next
  assume l: "lower_char c = c0"
  show "c = c0"
  proof (cases "c \<in> set upper_chars")
    case True
    then have "lower_char c \<in> set lower_chars" by (rule lower_char_upper)
    with l assms(2) show ?thesis by simp
  next
    case False
    with l show ?thesis by (simp add: lower_char_not_upper)
  qed
qed

lemma neutral_set:
  assumes "\<forall>w\<in>S. w \<notin> set upper_chars \<and> w \<notin> set lower_chars"
  shows "lower_char c \<in> S \<longleftrightarrow> c \<in> S"
proof (cases "c \<in> set upper_chars")
  case True
  then have "lower_char c \<in> set lower_chars" by (rule lower_char_upper)
  with True assms show ?thesis by blast
next
  case False
  then show ?thesis by (simp add: lower_char_not_upper)
qed

lemma isspace_lower_char: "isspace (lower_char c) = isspace c"
  unfolding isspace_def using space_neutral by (intro neutral_set) (simp add: list_all_iff)

lemma lower_idem: "lower (lower s) = lower s"
  by (simp add: lower_def lower_char_idem)

lemma lower_length: "length (lower s) = length s"
  by (simp add: lower_def)

lemma lower_Nil: "lower s = [] \<longleftrightarrow> s = []"
  by (simp add: lower_def)

lemma lower_append: "lower (a @ b) = lower a @ lower b"
  by (simp add: lower_def)

lemma strip_lower: "strip (lower s) = lower (strip s)"
proof -
  have c: "isspace \<circ> lower_char = isspace" by (rule ext) (simp add: isspace_lower_char)
  show ?thesis
    by (simp add: strip_def lower_def dropWhile_map rev_map c)
qed

lemma sep_neutral:
  "lower_char c = CHR ''.'' \<longleftrightarrow> c = CHR ''.''"
  "lower_char c = CHR '':'' \<longleftrightarrow> c = CHR '':''"
  "lower_char c = CHR ''%'' \<longleftrightarrow> c = CHR ''%''"
  "lower_char c = CHR ''/'' \<longleftrightarrow> c = CHR ''/''"
  by (rule lower_char_neutral; simp add: upper_chars_def lower_chars_def)+

lemma sep_in_lower:
  "CHR ''.'' \<in> set (lower s) \<longleftrightarrow> CHR ''.'' \<in> set s"
  "CHR '':'' \<in> set (lower s) \<longleftrightarrow> CHR '':'' \<in> set s"
  "CHR ''%'' \<in> set (lower s) \<longleftrightarrow> CHR ''%'' \<in> set s"
  "CHR ''/'' \<in> set (lower s) \<longleftrightarrow> CHR ''/'' \<in> set s"
  by (induction s) (simp_all add: lower_def sep_neutral eq_commute[of "CHR ''.''"]
      eq_commute[of "CHR '':''"] eq_commute[of "CHR ''%''"] eq_commute[of "CHR ''/''"])

lemma digits_neutral:
  "list_all (\<lambda>c. c \<notin> set upper_chars \<and> c \<notin> set lower_chars) digits"
  by (simp add: upper_chars_def lower_chars_def digits_def)

lemma digit_lower_char: "lower_char c \<in> set digits \<longleftrightarrow> c \<in> set digits"
  using digits_neutral by (intro neutral_set) (simp add: list_all_iff)

lemma digit_lower_char_id: "c \<in> set digits \<Longrightarrow> lower_char c = c"
  using digits_neutral by (simp add: list_all_iff lower_char_not_upper)

lemma case_table:
  "zip upper_chars lower_chars =
    [(CHR ''A'', CHR ''a''), (CHR ''B'', CHR ''b''), (CHR ''C'', CHR ''c''), (CHR ''D'', CHR ''d''),
     (CHR ''E'', CHR ''e''), (CHR ''F'', CHR ''f'')] @ zip (drop 6 upper_chars) (drop 6 lower_chars)"
  by (simp add: upper_chars_def lower_chars_def)

lemma lower_hex_letters:
  "lower_char (CHR ''A'') = CHR ''a''" "lower_char (CHR ''B'') = CHR ''b''"
  "lower_char (CHR ''C'') = CHR ''c''" "lower_char (CHR ''D'') = CHR ''d''"
  "lower_char (CHR ''E'') = CHR ''e''" "lower_char (CHR ''F'') = CHR ''f''"
  by (simp_all add: lower_char_def case_table)

lemma upper_split: "set upper_chars = set ''ABCDEF'' \<union> set (drop 6 upper_chars)"
proof -
  have "take 6 upper_chars = ''ABCDEF''" by (simp add: upper_chars_def)
  then have "upper_chars = ''ABCDEF'' @ drop 6 upper_chars"
    by (metis append_take_drop_id)
  then have "set upper_chars = set (''ABCDEF'' @ drop 6 upper_chars)" by simp
  then show ?thesis by (simp only: set_append)
qed

lemma rest_not_hex:
  "list_all (\<lambda>c. c \<notin> set hexdigits) (drop 6 upper_chars)"
  "list_all (\<lambda>c. c \<notin> set hexdigits) (drop 6 lower_chars)"
  by (simp_all add: upper_chars_def lower_chars_def hexdigits_def)

lemma lower_char_rest:
  assumes "c \<in> set (drop 6 upper_chars)"
  shows "lower_char c \<in> set (drop 6 lower_chars)"
proof -
  from assms rest_not_hex(1) have "c \<notin> set hexdigits" by (simp add: list_all_iff)
  then have n: "c \<notin> set ''ABCDEF''" by (simp add: hexdigits_def)
  have len: "length (drop 6 upper_chars) = length (drop 6 lower_chars)"
    by (simp add: case_table_length)
  from assms have "c \<in> fst ` set (zip (drop 6 upper_chars) (drop 6 lower_chars))"
    by (metis len map_fst_zip set_map)
  then obtain d where d: "map_of (zip (drop 6 upper_chars) (drop 6 lower_chars)) c = Some d"
    by (metis map_of_eq_None_iff not_Some_eq)
  then have "(c, d) \<in> set (zip (drop 6 upper_chars) (drop 6 lower_chars))" by (rule map_of_SomeD)
  then have "d \<in> set (drop 6 lower_chars)" by (rule set_zip_rightD)
  moreover from n d have "lower_char c = d"
    by (simp add: lower_char_def case_table)
  ultimately show ?thesis by simp
qed

lemma low_hex_not_upper: "list_all (\<lambda>c. c \<notin> set upper_chars) ''0123456789abcdef''"
  by (simp add: upper_chars_def)

lemma hexdigits_split: "set hexdigits = set ''0123456789abcdef'' \<union> set ''ABCDEF''"
  by (auto simp: hexdigits_def)

lemma hex_lower_char: "lower_char c \<in> set hexdigits \<longleftrightarrow> c \<in> set hexdigits"
proof (cases "c \<in> set upper_chars")
  case False
  then show ?thesis by (simp add: lower_char_not_upper)
next
  case True
  then consider "c \<in> set ''ABCDEF''" | "c \<in> set (drop 6 upper_chars)"
    using upper_split by blast
  then show ?thesis
  proof cases
    case 1
    then have "lower_char c \<in> set ''abcdef''"
      by (auto simp: lower_hex_letters)
    with 1 show ?thesis by (auto simp: hexdigits_def)
  next
    case 2
    then have "lower_char c \<in> set (drop 6 lower_chars)" by (rule lower_char_rest)
    with 2 rest_not_hex show ?thesis by (simp add: list_all_iff)
  qed
qed

lemma digit_value_not_hex: "c \<notin> set hexdigits \<Longrightarrow> digit_value c = 0"
proof -
  assume "c \<notin> set hexdigits"
  moreover have "length hexdigits = length [0::nat, 1, 2, 3, 4, 5, 6, 7, 8, 9, 10, 11, 12, 13, 14, 15,
                                  10, 11, 12, 13, 14, 15]" by (simp add: hexdigits_def)
  ultimately have "map_of (zip hexdigits [0::nat, 1, 2, 3, 4, 5, 6, 7, 8, 9, 10, 11, 12, 13, 14, 15,
                                  10, 11, 12, 13, 14, 15]) c = None"
    by (metis map_fst_zip map_of_eq_None_iff set_map)
  then show ?thesis by (simp add: digit_value_def)
qed

lemma digit_value_letters:
  "digit_value (CHR ''A'') = digit_value (CHR ''a'')" "digit_value (CHR ''B'') = digit_value (CHR ''b'')"
  "digit_value (CHR ''C'') = digit_value (CHR ''c'')" "digit_value (CHR ''D'') = digit_value (CHR ''d'')"
  "digit_value (CHR ''E'') = digit_value (CHR ''e'')" "digit_value (CHR ''F'') = digit_value (CHR ''f'')"
  by (simp_all add: digit_value_def hexdigits_def)

lemma digit_value_lower_char: "digit_value (lower_char c) = digit_value c"
proof (cases "c \<in> set upper_chars")
  case False
  then show ?thesis by (simp add: lower_char_not_upper)
next
  case True
  then consider "c \<in> set ''ABCDEF''" | "c \<in> set (drop 6 upper_chars)"
    using upper_split by blast
  then show ?thesis
  proof cases
    case 1
    then show ?thesis
      by (auto simp: lower_hex_letters digit_value_letters)
  next
    case 2
    then have "lower_char c \<in> set (drop 6 lower_chars)" by (rule lower_char_rest)
    with 2 rest_not_hex have "c \<notin> set hexdigits" "lower_char c \<notin> set hexdigits"
      by (simp_all add: list_all_iff)
    then show ?thesis by (simp add: digit_value_not_hex)
  qed
qed

subsection \<open>The address parser ignores the case\<close>

lemma split_lower:
  assumes "\<And>c. lower_char c = sep \<longleftrightarrow> c = sep"
  shows "split sep (lower s) = map lower (split sep s)"
proof (induction s)
  case Nil
  show ?case by (simp add: lower_def)
next
  case (Cons c cs)
  have ih: "split sep (map lower_char cs) = map (map lower_char) (split sep cs)"
    using Cons by (simp add: lower_def)
  show ?case
  proof (cases "c = sep")
    case True
    with assms[of c] ih show ?thesis by (simp add: lower_def)
  next
    case False
    with assms[of c] have "lower_char c \<noteq> sep" by simp
    with False ih show ?thesis
      by (cases "split sep cs") (simp_all add: lower_def)
  qed
qed

lemma all_digits_lower:
  "list_all (\<lambda>c. c \<in> set digits) (lower s) = list_all (\<lambda>c. c \<in> set digits) s"
  by (simp add: lower_def list_all_iff digit_lower_char)

lemma all_hex_lower:
  "list_all (\<lambda>c. c \<in> set hexdigits) (lower s) = list_all (\<lambda>c. c \<in> set hexdigits) s"
  by (simp add: lower_def list_all_iff hex_lower_char)

lemma digits_lower_id: "list_all (\<lambda>c. c \<in> set digits) s \<Longrightarrow> lower s = s"
  by (simp add: lower_def list_all_iff map_idI digit_lower_char_id)

lemma parse_octet_lower: "parse_octet (lower s) = parse_octet s"
proof (cases "list_all (\<lambda>c. c \<in> set digits) s")
  case True
  then show ?thesis by (simp add: digits_lower_id)
next
  case False
  then show ?thesis by (simp add: parse_octet_def all_digits_lower lower_Nil)
qed

lemma of_digits_lower: "of_digits b (lower s) = of_digits b s"
  by (simp add: of_digits_def lower_def foldl_map digit_value_lower_char)

lemma parse_hextet_lower: "parse_hextet (lower s) = parse_hextet s"
  by (simp add: parse_hextet_def all_hex_lower lower_length lower_Nil of_digits_lower)

lemma parse_comp_lower:
  "parse_octet \<circ> lower = parse_octet" "parse_hextet \<circ> lower = parse_hextet"
  by (rule ext, simp add: parse_octet_lower parse_hextet_lower)+

lemma ipv4_address_lower: "ipv4_address (lower s) = ipv4_address s"
  by (simp add: ipv4_address_def ipv4_int_from_string_def sep_in_lower lower_Nil
      split_lower[of "CHR ''.''", OF sep_neutral(1)] Let_def parse_comp_lower)

lemma digit_char_low_hex: "k < 16 \<Longrightarrow> digit_char k \<in> set ''0123456789abcdef''"
  unfolding digit_char_def by (rule nth_mem) simp

lemma hex_str_chars: "set (hex_str n) \<subseteq> set ''0123456789abcdef''"
proof (induction n rule: hex_str.induct)
  case (1 n)
  show ?case
  proof (cases "n < 16")
    case True
    then show ?thesis using digit_char_low_hex[of n] by (subst hex_str.simps) simp
  next
    case False
    have "n mod 16 < 16" by simp
    from digit_char_low_hex[OF this] 1[OF False] False show ?thesis
      by (subst hex_str.simps) simp
  qed
qed

lemma low_hex_lower_id: "set s \<subseteq> set ''0123456789abcdef'' \<Longrightarrow> lower s = s"
proof -
  assume a: "set s \<subseteq> set ''0123456789abcdef''"
  have "lower_char c = c" if "c \<in> set s" for c
  proof -
    from that a have "c \<in> set ''0123456789abcdef''" by blast
    with low_hex_not_upper have "c \<notin> set upper_chars" by (simp only: list_all_iff) blast
    then show ?thesis by (rule lower_char_not_upper)
  qed
  then show ?thesis by (simp add: lower_def map_idI)
qed

lemma hex_str_lower: "lower (hex_str n) = hex_str n"
  using hex_str_chars by (rule low_hex_lower_id)

lemma expand_ipv4_suffix_lower:
  assumes "parts \<noteq> []"
  shows "expand_ipv4_suffix (map lower parts) = map_option (map lower) (expand_ipv4_suffix parts)"
  using assms
  by (simp add: expand_ipv4_suffix_def last_map sep_in_lower ipv4_address_lower map_butlast
      hex_str_lower split: option.splits list.splits)

lemma empties_lower:
  "filter (\<lambda>i. map lower parts ! i = []) [1 ..< length parts - 1] =
   filter (\<lambda>i. parts ! i = []) [1 ..< length parts - 1]"
  by (rule filter_cong) (auto simp: lower_Nil)

lemma those_hextets_lower:
  "those (map parse_hextet (map lower xs)) = those (map parse_hextet xs)"
  by (simp add: parse_comp_lower)

lemma hextets_of_parts_lower:
  assumes "parts \<noteq> []"
  shows "hextets_of_parts (map lower parts) = hextets_of_parts parts"
proof -
  have h: "(hd (map lower parts) = []) = (hd parts = [])"
    using assms by (simp add: hd_map lower_Nil)
  have l: "(last (map lower parts) = []) = (last parts = [])"
    using assms by (simp add: last_map lower_Nil)
  have t: "those (map parse_hextet (take n (map lower parts))) = those (map parse_hextet (take n parts))" for n
    by (simp only: take_map those_hextets_lower)
  have d: "those (map parse_hextet (drop n (map lower parts))) = those (map parse_hextet (drop n parts))" for n
    by (simp only: drop_map those_hextets_lower)
  show ?thesis
    unfolding hextets_of_parts_def length_map empties_lower h l t d those_hextets_lower ..
qed

lemma split_not_Nil: "split sep s \<noteq> []"
  by (cases s) (auto split: list.splits)

lemma expand_not_Nil: "expand_ipv4_suffix parts = Some parts' \<Longrightarrow> parts \<noteq> [] \<Longrightarrow> parts' \<noteq> []"
  by (auto simp: expand_ipv4_suffix_def split: if_splits option.splits list.splits)

lemma ipv6_int_from_string_lower: "ipv6_int_from_string (lower s) = ipv6_int_from_string s"
proof -
  let ?parts = "split (CHR '':'') s"
  have p: "split (CHR '':'') (lower s) = map lower ?parts"
    by (rule split_lower) (rule sep_neutral)
  have n: "?parts \<noteq> []" by (rule split_not_Nil)
  show ?thesis
  proof (cases "expand_ipv4_suffix ?parts")
    case None
    with n show ?thesis
      by (simp add: ipv6_int_from_string_def p lower_Nil expand_ipv4_suffix_lower Let_def)
  next
    case (Some parts')
    with n have "parts' \<noteq> []" by (rule expand_not_Nil[rotated -1])
    with Some n show ?thesis
      by (simp add: ipv6_int_from_string_def p lower_Nil expand_ipv4_suffix_lower Let_def
          hextets_of_parts_lower)
  qed
qed

lemma not_percent_lower: "(\<lambda>c. c \<noteq> CHR ''%'') \<circ> lower_char = (\<lambda>c. c \<noteq> CHR ''%'')"
  by (rule ext) (simp add: sep_neutral)

lemma split_scope_id_lower:
  "split_scope_id (lower s) =
     map_option (\<lambda>(a, sc). (lower a, map_option lower sc)) (split_scope_id s)"
proof -
  have t: "takeWhile (\<lambda>c. c \<noteq> CHR ''%'') (lower s) = lower (takeWhile (\<lambda>c. c \<noteq> CHR ''%'') s)"
    by (simp add: lower_def takeWhile_map not_percent_lower)
  have d: "dropWhile (\<lambda>c. c \<noteq> CHR ''%'') (lower s) = lower (dropWhile (\<lambda>c. c \<noteq> CHR ''%'') s)"
    by (simp add: lower_def dropWhile_map not_percent_lower)
  have tl_lower: "tl (lower x) = lower (tl x)" for x
    by (simp add: lower_def map_tl)
  show ?thesis
    by (auto simp: split_scope_id_def Let_def t d tl_lower lower_Nil sep_in_lower)
qed

lemma ipv6_address_lower:
  "ipv6_address (lower s) = None \<longleftrightarrow> ipv6_address s = None"
  by (auto simp: ipv6_address_def sep_in_lower split_scope_id_lower ipv6_int_from_string_lower
      split: option.splits)

lemma ip_address_lower: "ip_address (lower s) = None \<longleftrightarrow> ip_address s = None"
  using ipv6_address_lower[of s]
  by (auto simp: ip_address_def ipv4_address_lower split: option.splits)

lemma is_ip_lower: "is_ip (lower v) = is_ip v"
  by (simp add: is_ip_def strip_lower ip_address_lower)

subsection \<open>Printing and parsing numbers\<close>

lemma below_16: "k < 16 \<Longrightarrow> k \<in> set [0, 1, 2, 3, 4, 5, 6, 7, 8, 9, 10, 11, 12, 13, 14, 15::nat]"
  by (simp add: numeral_eq_Suc less_Suc_eq) 

lemma digit_table:
  "list_all (\<lambda>k. digit_value (digit_char k) = k \<and> (k < 10 \<longrightarrow> digit_char k \<in> set digits) \<and>
                  (digit_char k = CHR ''0'' \<longrightarrow> k = 0))
     [0, 1, 2, 3, 4, 5, 6, 7, 8, 9, 10, 11, 12, 13, 14, 15]"
  by (simp add: digit_value_def digit_char_def hexdigits_def digits_def)

lemma digit_char_props:
  assumes "k < 16"
  shows "digit_value (digit_char k) = k" and "k < 10 \<Longrightarrow> digit_char k \<in> set digits"
    and "digit_char k = CHR ''0'' \<Longrightarrow> k = 0"
  using below_16[OF assms] digit_table by (simp_all only: list_all_iff)

lemma of_digits_snoc: "of_digits b (xs @ [c]) = of_digits b xs * b + digit_value c"
  by (simp add: of_digits_def)

lemma of_digits_single: "of_digits b [c] = digit_value c"
  by (simp add: of_digits_def)

lemma of_digits_dec_str: "of_digits 10 (dec_str n) = n"
proof (induction n rule: dec_str.induct)
  case (1 n)
  show ?case
  proof (cases "n < 10")
    case True
    then have "n < 16" by simp
    with True show ?thesis
      by (subst dec_str.simps) (simp add: of_digits_single digit_char_props(1))
  next
    case False
    have "n mod 10 < 16" by (rule less_trans[OF mod_less_divisor]) simp_all
    with False 1[OF False] show ?thesis
      by (subst dec_str.simps) (simp add: of_digits_snoc digit_char_props(1))
  qed
qed

lemma of_digits_hex_str: "of_digits 16 (hex_str n) = n"
proof (induction n rule: hex_str.induct)
  case (1 n)
  show ?case
  proof (cases "n < 16")
    case True
    then show ?thesis
      by (subst hex_str.simps) (simp add: of_digits_single digit_char_props(1))
  next
    case False
    have "n mod 16 < 16" by simp
    with False 1[OF False] show ?thesis
      by (subst hex_str.simps) (simp add: of_digits_snoc digit_char_props(1))
  qed
qed

lemma dec_str_not_Nil: "dec_str n \<noteq> []"
  by (subst dec_str.simps) simp

lemma hex_str_not_Nil: "hex_str n \<noteq> []"
  by (subst hex_str.simps) simp

lemma dec_str_digits: "set (dec_str n) \<subseteq> set digits"
proof (induction n rule: dec_str.induct)
  case (1 n)
  show ?case
  proof (cases "n < 10")
    case True
    then have "n < 16" by simp
    from digit_char_props(2)[OF this True] True show ?thesis
      by (subst dec_str.simps) simp
  next
    case False
    have m: "n mod 10 < 10" by simp
    then have "n mod 10 < 16" by simp
    from digit_char_props(2)[OF this m] False 1[OF False] show ?thesis
      by (subst dec_str.simps) simp
  qed
qed

lemma dec_str_length: "n < 1000 \<Longrightarrow> length (dec_str n) \<le> 3"
proof -
  assume n: "n < 1000"
  have a: "length (dec_str k) = 1" if "k < 10" for k
    using that by (subst dec_str.simps) simp
  have b: "length (dec_str k) \<le> 2" if "k < 100" for k
  proof (cases "k < 10")
    case True
    then show ?thesis using a by simp
  next
    case False
    from that have "k div 10 < 10" by simp
    with False show ?thesis by (subst dec_str.simps) (simp add: a)
  qed
  show ?thesis
  proof (cases "n < 10")
    case True
    then show ?thesis using a by simp
  next
    case False
    from n have "n div 10 < 100" by simp
    from b[OF this] False show ?thesis by (subst dec_str.simps) simp
  qed
qed

lemma hex_str_length: "n < 65536 \<Longrightarrow> length (hex_str n) \<le> 4"
proof -
  assume n: "n < 65536"
  have a: "length (hex_str k) = 1" if "k < 16" for k
    using that by (subst hex_str.simps) simp
  have b: "length (hex_str k) \<le> 2" if "k < 256" for k
  proof (cases "k < 16")
    case True
    then show ?thesis using a by simp
  next
    case False
    from that have "k div 16 < 16" by simp
    with False show ?thesis by (subst hex_str.simps) (simp add: a)
  qed
  have c: "length (hex_str k) \<le> 3" if "k < 4096" for k
  proof (cases "k < 16")
    case True
    then show ?thesis using a by simp
  next
    case False
    from that have "k div 16 < 256" by simp
    from b[OF this] False show ?thesis by (subst hex_str.simps) simp
  qed
  show ?thesis
  proof (cases "n < 16")
    case True
    then show ?thesis using a by simp
  next
    case False
    from n have "n div 16 < 4096" by simp
    from c[OF this] False show ?thesis by (subst hex_str.simps) simp
  qed
qed

lemma dec_str_hd: "hd (dec_str n) = CHR ''0'' \<Longrightarrow> n = 0"
proof (induction n rule: dec_str.induct)
  case (1 n)
  show ?case
  proof (cases "n < 10")
    case True
    then have "n < 16" by simp
    moreover from True "1.prems" have "digit_char n = CHR ''0''"
      by (subst (asm) dec_str.simps) simp
    ultimately show ?thesis by (rule digit_char_props(3))
  next
    case False
    with "1.prems" have "hd (dec_str (n div 10)) = CHR ''0''"
      by (subst (asm) dec_str.simps) (simp add: dec_str_not_Nil)
    from 1(1)[OF False this] False show ?thesis by simp
  qed
qed

lemma dec_str_0: "dec_str 0 = ''0''"
  by (subst dec_str.simps) (simp add: digit_char_def)

lemma hex_str_0: "hex_str 0 = ''0''"
  by (subst hex_str.simps) (simp add: digit_char_def)

lemma hex_str_eq_0: "hex_str n = ''0'' \<longleftrightarrow> n = 0"
proof
  assume "hex_str n = ''0''"
  then have "of_digits 16 (hex_str n) = of_digits 16 ''0''" by simp
  then show "n = 0"
    by (simp add: of_digits_hex_str of_digits_single digit_value_def hexdigits_def)
qed (simp add: hex_str_0)

lemma parse_octet_dec_str: "n \<le> 255 \<Longrightarrow> parse_octet (dec_str n) = Some n"
proof -
  assume n: "n \<le> 255"
  have d: "list_all (\<lambda>c. c \<in> set digits) (dec_str n)"
    using dec_str_digits[of n] by (auto simp: list_all_iff)
  have l: "length (dec_str n) \<le> 3" using n by (intro dec_str_length) simp
  have z: "dec_str n = ''0''" if "hd (dec_str n) = CHR ''0''"
    using dec_str_hd[OF that] by (simp add: dec_str_0)
  from d l z n show ?thesis
    by (auto simp: parse_octet_def dec_str_not_Nil of_digits_dec_str)
qed

lemma low_hex_is_hex: "set ''0123456789abcdef'' \<subseteq> set hexdigits"
  by (simp add: hexdigits_def)

lemma hex_str_all_hex: "list_all (\<lambda>c. c \<in> set hexdigits) (hex_str n)"
  using hex_str_chars[of n] low_hex_is_hex by (simp only: list_all_iff) blast

lemma parse_hextet_hex_str: "n < 65536 \<Longrightarrow> parse_hextet (hex_str n) = Some n"
  using hex_str_length[of n]
  by (simp add: parse_hextet_def hex_str_all_hex hex_str_not_Nil of_digits_hex_str)

lemma digit_value_bound: "digit_value c < 16"
proof (cases "map_of (zip hexdigits [0::nat, 1, 2, 3, 4, 5, 6, 7, 8, 9, 10, 11, 12, 13, 14, 15,
                                  10, 11, 12, 13, 14, 15]) c")
  case None
  then show ?thesis by (simp add: digit_value_def)
next
  case (Some n)
  then have "n \<in> set [0::nat, 1, 2, 3, 4, 5, 6, 7, 8, 9, 10, 11, 12, 13, 14, 15,
                                  10, 11, 12, 13, 14, 15]"
    by (meson map_of_SomeD set_zip_rightD)
  then have "n < 16" by auto
  with Some show ?thesis by (simp add: digit_value_def)
qed

lemma of_digits_bound: "of_digits 16 s < 16 ^ length s"
proof (induction s rule: rev_induct)
  case Nil
  show ?case by (simp add: of_digits_def)
next
  case (snoc c s)
  have "of_digits 16 s * 16 + digit_value c < (of_digits 16 s + 1) * 16"
    using digit_value_bound[of c] by simp
  also have "\<dots> \<le> 16 ^ length s * 16"
    using snoc by (intro mult_right_mono) simp_all
  finally show ?case by (simp add: of_digits_snoc)
qed

lemma parse_hextet_bound: "parse_hextet s = Some n \<Longrightarrow> n < 65536"
proof -
  assume "parse_hextet s = Some n"
  then have l: "length s \<le> 4" and n: "n = of_digits 16 s"
    by (auto simp: parse_hextet_def split: if_splits)
  have "of_digits 16 s < (16::nat) ^ length s" by (rule of_digits_bound)
  also have "\<dots> \<le> 16 ^ 4" using l by (intro power_increasing) simp_all
  finally show ?thesis using n by simp
qed

lemma parse_octet_bound: "parse_octet s = Some n \<Longrightarrow> n \<le> 255"
  by (auto simp: parse_octet_def split: if_splits)

subsection \<open>Printing and parsing IPv4 addresses\<close>

lemma split_append_sep: "c \<notin> set p \<Longrightarrow> split c (p @ c # r) = p # split c r"
  by (induction p) auto

lemma split_join:
  "parts \<noteq> [] \<Longrightarrow> \<forall>p\<in>set parts. c \<notin> set p \<Longrightarrow> split c (join [c] parts) = parts"
proof (induction "[c]" parts rule: join.induct)
  case 1
  then show ?case by simp
next
  case (2 p)
  then show ?case by (simp add: split_no_sep)
next
  case (3 p q ps)
  then show ?case by (simp add: split_append_sep)
qed

lemma set_join: "set (join sep parts) \<subseteq> set sep \<union> \<Union> (set ` set parts)"
  by (induction sep parts rule: join.induct) auto

lemma join_not_Nil: "p \<noteq> [] \<Longrightarrow> join sep (p # ps) \<noteq> []"
  by (cases ps) auto

lemma sep_in_join: "join [c] (p # q # ps) = p @ c # join [c] (q # ps)"
  by simp

lemma set_split: "x \<in> set s \<Longrightarrow> x = sep \<or> (\<exists>p\<in>set (split sep s). x \<in> set p)"
proof (induction s)
  case Nil
  then show ?case by simp
next
  case (Cons a s)
  show ?case
  proof (cases "a = sep")
    case True
    with Cons show ?thesis by auto
  next
    case False
    obtain p ps where ps: "split sep s = p # ps"
      using split_not_Nil[of sep s] by (cases "split sep s") auto
    show ?thesis
    proof (cases "x = a")
      case True
      with False ps show ?thesis by simp
    next
      case x: False
      with Cons.prems have "x \<in> set s" by simp
      from Cons.IH[OF this] False ps show ?thesis by auto
    qed
  qed
qed

lemma those_map_Some: "\<forall>x\<in>set xs. f x = Some (g x) \<Longrightarrow> those (map f xs) = Some (map g xs)"
  by (induction xs) auto

lemma those_Some_all2: "those xs = Some ys \<Longrightarrow> list_all2 (\<lambda>x y. x = Some y) xs ys"
  by (induction xs arbitrary: ys) (auto split: option.splits)

lemma those_map_all2:
  "those (map f xs) = Some ys \<Longrightarrow> list_all2 (\<lambda>x y. f x = Some y) xs ys"
  using those_Some_all2[of "map f xs" ys] by (simp add: list_all2_map1)

lemma ipv4_address_parts:
  assumes "ipv4_address s = Some octs"
  shows "s \<noteq> []" and "CHR ''/'' \<notin> set s" and "length (split (CHR ''.'') s) = 4"
    and "list_all2 (\<lambda>p n. parse_octet p = Some n) (split (CHR ''.'') s) octs"
  using assms
  by (auto simp: ipv4_address_def ipv4_int_from_string_def Let_def
      split: if_splits intro: those_map_all2)

lemma ipv4_address_wf:
  assumes "ipv4_address s = Some octs"
  shows "length octs = 4 \<and> (\<forall>n\<in>set octs. n \<le> 255)"
proof -
  note p = ipv4_address_parts[OF assms]
  from p(3,4) have "length octs = 4" by (auto dest: list_all2_lengthD)
  moreover have "n \<le> 255" if "n \<in> set octs" for n
  proof -
    from that obtain i where "i < length octs" "octs ! i = n" by (auto simp: in_set_conv_nth)
    with p(4) have "parse_octet (split (CHR ''.'') s ! i) = Some n"
      by (auto simp: list_all2_conv_all_nth)
    then show ?thesis by (rule parse_octet_bound)
  qed
  ultimately show ?thesis by blast
qed

lemma parse_octet_digits: "parse_octet p = Some n \<Longrightarrow> set p \<subseteq> set digits"
  by (auto simp: parse_octet_def list_all_iff split: if_splits)

lemma ipv4_address_chars:
  assumes "ipv4_address s = Some octs" and "x \<in> set s"
  shows "x = CHR ''.'' \<or> x \<in> set digits"
proof -
  note p = ipv4_address_parts[OF assms(1)]
  from set_split[OF assms(2), of "CHR ''.''"] show ?thesis
  proof
    assume "\<exists>p\<in>set (split (CHR ''.'') s). x \<in> set p"
    then obtain q where q: "q \<in> set (split (CHR ''.'') s)" "x \<in> set q" by blast
    then obtain i where "i < length (split (CHR ''.'') s)" "split (CHR ''.'') s ! i = q"
      by (auto simp: in_set_conv_nth)
    with p(4) have "parse_octet q = Some (octs ! i)"
      by (auto simp: list_all2_conv_all_nth)
    from parse_octet_digits[OF this] q(2) show ?thesis by blast
  qed simp
qed

lemma ipv4_no_colon: "ipv4_address s = Some octs \<Longrightarrow> CHR '':'' \<notin> set s"
proof
  assume a: "ipv4_address s = Some octs" and "CHR '':'' \<in> set s"
  from ipv4_address_chars[OF this] show False by (simp add: digits_def)
qed

lemma ipv4_round_trip:
  assumes "length octs = 4" and "\<forall>n\<in>set octs. n \<le> 255"
  shows "ipv4_address (join ''.'' (map dec_str octs)) = Some octs"
proof -
  let ?parts = "map dec_str octs"
  let ?s = "join ''.'' ?parts"
  from assms(1) obtain a b c d where o: "octs = [a, b, c, d]"
    by (auto simp: length_Suc_conv numeral_eq_Suc)
  have nd: "CHR ''.'' \<notin> set (dec_str n)" "CHR ''/'' \<notin> set (dec_str n)" for n
    using dec_str_digits[of n] by (auto simp: digits_def)
  have sp: "split (CHR ''.'') ?s = ?parts"
    using o nd by (intro split_join) auto
  have "set ?s \<subseteq> set ''.'' \<union> \<Union> (set ` set ?parts)" by (rule set_join)
  then have sl: "CHR ''/'' \<notin> set ?s" using nd(2) by auto
  have ne: "?s \<noteq> []" using o by (simp add: dec_str_not_Nil)
  have th: "those (map parse_octet ?parts) = Some octs"
    using those_map_Some[of octs "parse_octet \<circ> dec_str" id] assms(2)
    by (simp add: parse_octet_dec_str)
  show ?thesis
    using sl ne sp th assms(1) by (simp add: ipv4_address_def ipv4_int_from_string_def)
qed

subsection \<open>The compression of the longest run of zeros\<close>

lemma scan_inv_step:
  assumes "scan_inv hs idx (bs, bl, cs, cl)" and "idx < length hs"
  shows "hs ! idx = ''0'' \<Longrightarrow> cl + 1 > bl \<Longrightarrow>
           scan_inv hs (idx + 1) (if cs = None then Some idx else cs, cl + 1,
                                  if cs = None then Some idx else cs, cl + 1)"
    and "hs ! idx = ''0'' \<Longrightarrow> \<not> cl + 1 > bl \<Longrightarrow>
           scan_inv hs (idx + 1) (bs, bl, if cs = None then Some idx else cs, cl + 1)"
    and "hs ! idx \<noteq> ''0'' \<Longrightarrow> scan_inv hs (idx + 1) (bs, bl, None, 0)"
proof -
  have cur: "case (if cs = None then Some idx else cs) of None \<Rightarrow> cl + 1 = 0
         | Some c \<Rightarrow> c + (cl + 1) = idx + 1 \<and> (\<forall>k<cl + 1. hs ! (c + k) = ''0'')"
    if z: "hs ! idx = ''0''"
  proof (cases cs)
    case None
    with assms(1) have "cl = 0" by (simp add: scan_inv_def)
    with None z show ?thesis by simp
  next
    case (Some c)
    with assms(1) have c: "c + cl = idx" "\<forall>k<cl. hs ! (c + k) = ''0''"
      by (simp_all add: scan_inv_def)
    have "hs ! (c + k) = ''0''" if "k < cl + 1" for k
    proof (cases "k < cl")
      case True
      with c(2) show ?thesis by simp
    next
      case False
      with that have "k = cl" by simp
      with c(1) z show ?thesis by simp
    qed
    with Some c(1) show ?thesis by simp
  qed
  have best: "0 < bl \<longrightarrow> (\<exists>b. bs = Some b \<and> b + bl \<le> idx + 1 \<and> (\<forall>k<bl. hs ! (b + k) = ''0''))"
    using assms(1) by (auto simp: scan_inv_def)
  show "scan_inv hs (idx + 1) (if cs = None then Some idx else cs, cl + 1,
                                  if cs = None then Some idx else cs, cl + 1)"
    if "hs ! idx = ''0''" "cl + 1 > bl"
    using cur[OF that(1)] by (cases "if cs = None then Some idx else cs") (auto simp: scan_inv_def)
  show "scan_inv hs (idx + 1) (bs, bl, if cs = None then Some idx else cs, cl + 1)"
    if "hs ! idx = ''0''" "\<not> cl + 1 > bl"
    using cur[OF that(1)] best that(1) by (cases cs) (simp_all add: scan_inv_def)
  show "scan_inv hs (idx + 1) (bs, bl, None, 0)" if "hs ! idx \<noteq> ''0''"
    using best by (simp add: scan_inv_def)
qed

lemma compress_scan_inv:
  "scan_inv (pre @ rest) (length pre) st \<Longrightarrow>
   scan_inv (pre @ rest) (length (pre @ rest)) (compress_scan rest (length pre) st)"
proof (induction rest arbitrary: pre st)
  case Nil
  then show ?case by simp
next
  case (Cons h rest)
  obtain bs bl cs cl where st: "st = (bs, bl, cs, cl)" by (cases st)
  let ?hs = "pre @ h # rest"
  have i: "length pre < length ?hs" by simp
  have n: "?hs ! length pre = h" by simp
  have e: "?hs = (pre @ [h]) @ rest" by simp
  have l: "length (pre @ [h]) = length pre + 1" by simp
  note step = scan_inv_step[OF Cons.prems[unfolded st] i, unfolded n]
  show ?case
  proof (cases "h = ''0''")
    case z: True
    show ?thesis
    proof (cases "cl + 1 > bl")
      case True
      from step(1)[OF z True] have "scan_inv ((pre @ [h]) @ rest) (length (pre @ [h]))
            (if cs = None then Some (length pre) else cs, cl + 1,
             if cs = None then Some (length pre) else cs, cl + 1)"
        by (simp only: e l)
      from Cons.IH[OF this] z True show ?thesis
        by (simp add: st Let_def)
    next
      case False
      from step(2)[OF z False] have "scan_inv ((pre @ [h]) @ rest) (length (pre @ [h]))
            (bs, bl, if cs = None then Some (length pre) else cs, cl + 1)"
        by (simp only: e l)
      from Cons.IH[OF this] z False show ?thesis
        by (simp add: st Let_def)
    qed
  next
    case False
    from step(3)[OF False] have "scan_inv ((pre @ [h]) @ rest) (length (pre @ [h]))
            (bs, bl, None, 0)"
      by (simp only: e l)
    from Cons.IH[OF this] False show ?thesis by (simp add: st)
  qed
qed

lemma compress_scan_best:
  assumes "compress_scan hs 0 (None, 0, None, 0) = (bs, bl, cs, cl)" and "0 < bl"
  shows "\<exists>b. bs = Some b \<and> b + bl \<le> length hs \<and> (\<forall>k<bl. hs ! (b + k) = ''0'')"
proof -
  have "scan_inv ([] @ hs) (length ([]::string list)) (None, 0, None, 0)"
    by (simp add: scan_inv_def)
  from compress_scan_inv[OF this] assms show ?thesis
    by (simp add: scan_inv_def)
qed

lemma zeros_slice:
  assumes "b + n \<le> length hs" and "\<forall>k<n. hs ! (b + k) = z"
  shows "hs = take b hs @ replicate n z @ drop (b + n) hs"
proof -
  have "take n (drop b hs) = replicate n z"
    using assms by (intro nth_equalityI) auto
  moreover have "take n (drop b hs) @ drop n (drop b hs) = drop b hs"
    by (rule append_take_drop_id)
  moreover have "take b hs @ drop b hs = hs"
    by (rule append_take_drop_id)
  moreover have "drop n (drop b hs) = drop (b + n) hs"
    by (simp add: add.commute)
  ultimately show ?thesis by metis
qed

lemma compress_shape:
  "compress_hextets hs = hs \<or>
   (\<exists>pre n post. hs = pre @ replicate n ''0'' @ post \<and> 2 \<le> n \<and>
      compress_hextets hs =
        (if pre = [] then [[]] else pre) @ [[]] @ (if post = [] then [[]] else post))"
proof -
  obtain bs bl cs cl where sc: "compress_scan hs 0 (None, 0, None, 0) = (bs, bl, cs, cl)"
    by (cases "compress_scan hs 0 (None, 0, None, 0)")
  show ?thesis
  proof (cases "bl > 1")
    case False
    with sc show ?thesis by (cases bs) (simp_all add: compress_hextets_def)
  next
    case True
    then have "0 < bl" by simp
    from compress_scan_best[OF sc this] obtain b where
      b: "bs = Some b" "b + bl \<le> length hs" "\<forall>k<bl. hs ! (b + k) = ''0''" by blast
    let ?pre = "take b hs" and ?post = "drop (b + bl) hs"
    have hs: "hs = ?pre @ replicate bl ''0'' @ ?post" using b(2,3) by (rule zeros_slice)
    have pre: "?pre = [] \<longleftrightarrow> b = 0" using b(2) True by auto
    have post: "?post = [] \<longleftrightarrow> b + bl = length hs" using b(2) by auto
    have "compress_hextets hs =
        (if ?pre = [] then [[]] else ?pre) @ [[]] @ (if ?post = [] then [[]] else ?post)"
      using sc b(1,2) True pre post by (auto simp: compress_hextets_def Let_def)
    with hs True show ?thesis by (intro disjI2 exI[of _ ?pre] exI[of _ bl] exI[of _ ?post]) simp
  qed
qed

subsection \<open>Parsing a compressed IPv6 address\<close>

lemma filter_upt_single:
  assumes "1 \<le> a" and "a < m" and "Q a"
    and "\<And>i. 1 \<le> i \<Longrightarrow> i < a \<Longrightarrow> \<not> Q i"
    and "\<And>i. a < i \<Longrightarrow> i < m \<Longrightarrow> \<not> Q i"
  shows "filter Q [1 ..< m] = [a]"
proof -
  have "[1 ..< a + (m - a)] = [1 ..< a] @ [a ..< a + (m - a)]"
    using assms(1) by (rule upt_add_eq_append)
  moreover have "a + (m - a) = m" using assms(2) by simp
  moreover have "[a ..< m] = a # [Suc a ..< m]" using assms(2) by (rule upt_conv_Cons)
  ultimately have s: "[1 ..< m] = [1 ..< a] @ a # [Suc a ..< m]" by simp
  have "filter Q [1 ..< a] = []" using assms(4) by (auto simp: filter_empty_conv)
  moreover have "filter Q [Suc a ..< m] = []" using assms(5) by (auto simp: filter_empty_conv)
  ultimately show ?thesis using assms(3) s by simp
qed

lemma those_hex_str:
  "\<forall>x\<in>set v. x < 65536 \<Longrightarrow> those (map parse_hextet (map hex_str v)) = Some v"
  using those_map_Some[of v "parse_hextet \<circ> hex_str" id] by (simp add: parse_hextet_hex_str)

lemma hextets_of_plain:
  assumes "length v = 8" and "\<forall>x\<in>set v. x < 65536"
  shows "hextets_of_parts (map hex_str v) = Some v"
proof -
  let ?parts = "map hex_str v"
  have ne: "v \<noteq> []" using assms(1) by auto
  have "filter (\<lambda>i. ?parts ! i = []) [1 ..< length ?parts - 1] = []"
    using assms(1) by (auto simp: filter_empty_conv hex_str_not_Nil)
  moreover have "hd ?parts \<noteq> []" "last ?parts \<noteq> []"
    using ne by (simp_all add: hd_map last_map hex_str_not_Nil)
  ultimately show ?thesis
    using assms(1) those_hex_str[OF assms(2)] by (simp add: hextets_of_parts_def)
qed

lemma hextets_of_parts_skip:
  assumes "\<not> length parts > 9"
    and "filter (\<lambda>i. parts ! i = []) [1 ..< length parts - 1] = [k]"
    and "\<not> (hd parts = [] \<and> k - 1 \<noteq> 0)"
    and "\<not> (last parts = [] \<and> length parts - k - 1 - 1 \<noteq> 0)"
    and "(if hd parts = [] then k - 1 else k) = hi"
    and "(if last parts = [] then length parts - k - 1 - 1 else length parts - k - 1) = lo"
    and "\<not> 8 < hi + lo + 1"
    and "those (map parse_hextet (take hi parts)) = Some vhi"
    and "those (map parse_hextet (drop (length parts - lo) parts)) = Some vlo"
  shows "hextets_of_parts parts = Some (vhi @ replicate (8 - (hi + lo)) 0 @ vlo)"
  unfolding hextets_of_parts_def assms(2) list.case if_not_P[OF assms(1)] if_not_P[OF assms(3)]
    if_not_P[OF assms(4)] assms(5) assms(6) Let_def if_not_P[OF assms(7)] assms(8) assms(9)
  by simp

lemma hextets_of_shape:
  assumes len: "length vpre + n + length vpost = 8" and n: "1 \<le> n"
    and bnd: "\<forall>x\<in>set (vpre @ vpost). x < 65536"
  shows "hextets_of_parts ((if vpre = [] then [[]] else map hex_str vpre) @ [[]] @
                           (if vpost = [] then [[]] else map hex_str vpost))
         = Some (vpre @ replicate n 0 @ vpost)"
proof -
  let ?P = "if vpre = [] then [[]] else map hex_str vpre"
  let ?Q = "if vpost = [] then [[]] else map hex_str vpost"
  let ?parts = "?P @ [[]] @ ?Q"
  let ?a = "length ?P" and ?q = "length ?Q"
  have a1: "1 \<le> ?a" by (cases vpre) auto
  have q1: "1 \<le> ?q" by (cases vpost) auto
  have lp: "length ?parts = ?a + 1 + ?q" by simp
  have la: "?a = (if vpre = [] then 1 else length vpre)" by simp
  have lq: "?q = (if vpost = [] then 1 else length vpost)" by simp
  have l9: "\<not> length ?parts > 9" using len n by (auto split: if_splits)
  have at_a: "?parts ! ?a = []" by (simp add: nth_append)
  have below: "?parts ! i \<noteq> []" if "1 \<le> i" "i < ?a" for i
  proof -
    from that have v: "vpre \<noteq> []" by (auto split: if_splits)
    with that have "?parts ! i = hex_str (vpre ! i)" by (simp add: nth_append)
    then show ?thesis by (simp add: hex_str_not_Nil)
  qed
  have above: "?parts ! i \<noteq> []" if "?a < i" "i < ?a + ?q" for i
  proof -
    from that have v: "vpost \<noteq> []" by (auto split: if_splits)
    from that have j: "i - ?a - 1 < length vpost" using v by (auto split: if_splits)
    have "?parts ! i = ([[]] @ ?Q) ! (i - ?a)" using that(1) by (simp add: nth_append)
    also have "\<dots> = ?Q ! (i - ?a - 1)" using that(1) by (simp add: nth_Cons')
    also have "\<dots> = hex_str (vpost ! (i - ?a - 1))" using v j by simp
    finally show ?thesis by (simp add: hex_str_not_Nil)
  qed
  have "filter (\<lambda>i. ?parts ! i = []) [1 ..< ?a + ?q] = [?a]"
    using a1 q1 at_a below above by (intro filter_upt_single) auto
  then have flt: "filter (\<lambda>i. ?parts ! i = []) [1 ..< length ?parts - 1] = [?a]"
    by (simp only: lp) simp
  have hd_parts: "hd ?parts = [] \<longleftrightarrow> vpre = []"
    by (cases vpre) (simp_all add: hex_str_not_Nil)
  have last_parts: "last ?parts = [] \<longleftrightarrow> vpost = []"
    by (cases vpost rule: rev_cases) (simp_all add: hex_str_not_Nil)
  let ?hi = "if hd ?parts = [] then ?a - 1 else ?a"
  let ?lo = "if last ?parts = [] then length ?parts - ?a - 1 - 1 else length ?parts - ?a - 1"
  have hi: "?hi = length vpre" by (simp only: hd_parts) simp
  have lo: "?lo = length vpost" by (simp only: last_parts lp) simp
  have c1: "\<not> (hd ?parts = [] \<and> ?a - 1 \<noteq> 0)" by (simp only: hd_parts) simp
  have c2: "\<not> (last ?parts = [] \<and> length ?parts - ?a - 1 - 1 \<noteq> 0)"
    by (simp only: last_parts lp) simp
  have c3: "\<not> 8 < length vpre + length vpost + 1" using len n by simp
  have tk: "take (length vpre) ?parts = map hex_str vpre" by simp
  have "length ?parts - length vpost = (if vpost = [] then length ?parts else ?a + 1)"
    by (simp only: lp) simp
  then have dr: "drop (length ?parts - length vpost) ?parts = map hex_str vpost"
    by (cases "vpost = []") simp_all
  have b2: "\<forall>x\<in>set vpre. x < 65536" "\<forall>x\<in>set vpost. x < 65536" using bnd by simp_all
  have th: "those (map parse_hextet (map hex_str vpre)) = Some vpre"
    "those (map parse_hextet (map hex_str vpost)) = Some vpost"
    using b2(1) apply (rule those_hex_str)
    using b2(2) apply (rule those_hex_str)
    done
  have z: "8 - (length vpre + length vpost) = n" using len by simp
  have t1: "those (map parse_hextet (take (length vpre) ?parts)) = Some vpre"
    by (simp only: tk th(1))
  have t2: "those (map parse_hextet (drop (length ?parts - length vpost) ?parts)) = Some vpost"
    by (simp only: dr th(2))
  have "hextets_of_parts ?parts =
          Some (vpre @ replicate (8 - (length vpre + length vpost)) 0 @ vpost)"
    by (rule hextets_of_parts_skip[OF l9 flt c1 c2 hi lo c3 t1 t2])
  then show ?thesis by (simp only: z)
qed

lemma map_hex_zeros: "map hex_str xs = replicate n ''0'' \<Longrightarrow> xs = replicate n 0"
proof (induction xs arbitrary: n)
  case Nil
  then show ?case by simp
next
  case (Cons x xs)
  then obtain m where n: "n = Suc m" by (cases n) auto
  with Cons.prems have "hex_str x = ''0''" "map hex_str xs = replicate m ''0''" by simp_all
  with Cons.IH[of m] n show ?case by (simp add: hex_str_eq_0)
qed

lemma compressed_parts:
  assumes "length v = 8" and "\<forall>x\<in>set v. x < 65536"
  shows "hextets_of_parts (compress_hextets (map hex_str v)) = Some v"
    and "3 \<le> length (compress_hextets (map hex_str v))"
    and "\<forall>p\<in>set (compress_hextets (map hex_str v)). set p \<subseteq> set ''0123456789abcdef''"
proof -
  let ?hs = "map hex_str v"
  have chars: "\<forall>p\<in>set ?hs. set p \<subseteq> set ''0123456789abcdef''"
    using hex_str_chars by auto
  from compress_shape[of ?hs]
  have "hextets_of_parts (compress_hextets ?hs) = Some v \<and> 3 \<le> length (compress_hextets ?hs) \<and>
        (\<forall>p\<in>set (compress_hextets ?hs). set p \<subseteq> set ''0123456789abcdef'')"
  proof
    assume "compress_hextets ?hs = ?hs"
    with assms chars show ?thesis by (simp add: hextets_of_plain)
  next
    assume "\<exists>pre n post. ?hs = pre @ replicate n ''0'' @ post \<and> 2 \<le> n \<and>
      compress_hextets ?hs =
        (if pre = [] then [[]] else pre) @ [[]] @ (if post = [] then [[]] else post)"
    then obtain pre n post where hs: "?hs = pre @ replicate n ''0'' @ post" and n: "2 \<le> n"
      and c: "compress_hextets ?hs =
        (if pre = [] then [[]] else pre) @ [[]] @ (if post = [] then [[]] else post)"
      by blast
    from hs obtain vpre rest where v1: "v = vpre @ rest" "pre = map hex_str vpre"
      "replicate n ''0'' @ post = map hex_str rest"
      by (auto simp: map_eq_append_conv)
    from v1(3)[symmetric] obtain vmid vpost where v2: "rest = vmid @ vpost"
      "replicate n ''0'' = map hex_str vmid" "post = map hex_str vpost"
      by (auto simp: map_eq_append_conv)
    from v2(2)[symmetric] have vmid: "vmid = replicate n 0" by (rule map_hex_zeros)
    have v: "v = vpre @ replicate n 0 @ vpost" using v1(1) v2(1) vmid by simp
    have len: "length vpre + n + length vpost = 8" using assms(1) v by simp
    have bnd: "\<forall>x\<in>set (vpre @ vpost). x < 65536" using assms(2) v by auto
    have c': "compress_hextets ?hs =
        (if vpre = [] then [[]] else map hex_str vpre) @ [[]] @
        (if vpost = [] then [[]] else map hex_str vpost)"
      using c v1(2) v2(3) by simp
    have "hextets_of_parts (compress_hextets ?hs) = Some (vpre @ replicate n 0 @ vpost)"
      unfolding c' using len _ bnd by (rule hextets_of_shape) (use n in simp)
    moreover have "3 \<le> length (compress_hextets ?hs)"
      unfolding c' by (cases vpre; cases vpost) simp_all
    moreover have "\<forall>p\<in>set (compress_hextets ?hs). set p \<subseteq> set ''0123456789abcdef''"
    proof -
      define S where "S = set ''0123456789abcdef''"
      have a: "\<forall>p\<in>set ?hs. set p \<subseteq> S" using chars by (simp only: S_def)
      have b1: "set (compress_hextets ?hs) \<subseteq> insert [] (set pre \<union> set post)"
        by (simp only: c) (auto split: if_splits)
      have b2: "set pre \<union> set post \<subseteq> set ?hs"
        by (subst hs) auto
      from b1 b2 have b: "set (compress_hextets ?hs) \<subseteq> insert [] (set ?hs)"
        by blast
      have "\<forall>p\<in>set (compress_hextets ?hs). set p \<subseteq> S"
      proof
        fix p assume "p \<in> set (compress_hextets ?hs)"
        with b have "p = [] \<or> p \<in> set ?hs" by blast
        with a show "set p \<subseteq> S" by auto
      qed
      then show ?thesis by (simp only: S_def)
    qed
    ultimately show ?thesis using v by simp
  qed
  then show "hextets_of_parts (compress_hextets ?hs) = Some v"
    and "3 \<le> length (compress_hextets ?hs)"
    and "\<forall>p\<in>set (compress_hextets ?hs). set p \<subseteq> set ''0123456789abcdef''"
    by blast+
qed

lemma join_two_not_Nil: "2 \<le> length parts \<Longrightarrow> join [c] parts \<noteq> [] \<and> c \<in> set (join [c] parts)"
proof -
  assume "2 \<le> length parts"
  then obtain p q ps where "parts = p # q # ps"
    by (cases parts; cases "tl parts") auto
  then show ?thesis by simp
qed

lemma low_hex_no_sep:
  "CHR '':'' \<notin> set ''0123456789abcdef''" "CHR ''.'' \<notin> set ''0123456789abcdef''"
  "CHR ''%'' \<notin> set ''0123456789abcdef''" "CHR ''/'' \<notin> set ''0123456789abcdef''"
  by simp_all

lemma ipv6_text:
  assumes "length v = 8" and "\<forall>x\<in>set v. x < 65536"
  shows "ipv6_int_from_string (join '':'' (compress_hextets (map hex_str v))) = Some v"
    and "set (join '':'' (compress_hextets (map hex_str v))) \<subseteq> set '':0123456789abcdef''"
    and "CHR '':'' \<in> set (join '':'' (compress_hextets (map hex_str v)))"
proof -
  let ?parts = "compress_hextets (map hex_str v)"
  let ?s = "join '':'' ?parts"
  note cp = compressed_parts[OF assms]
  from cp(2) have two: "2 \<le> length ?parts" by simp
  from join_two_not_Nil[OF two, of "CHR '':''"]
  have colon: "CHR '':'' \<in> set ?s" and ne: "?s \<noteq> []" by simp_all
  show "CHR '':'' \<in> set ?s" by (rule colon)
  have nc: "\<forall>p\<in>set ?parts. CHR '':'' \<notin> set p"
    using cp(3) low_hex_no_sep(1) by blast
  from cp(2) have pne: "?parts \<noteq> []" by auto
  have sp: "split (CHR '':'') ?s = ?parts" using pne nc by (rule split_join)
  from pne have "last ?parts \<in> set ?parts" by simp
  with cp(3) low_hex_no_sep(2) have "CHR ''.'' \<notin> set (last ?parts)" by blast
  then have ex: "expand_ipv4_suffix ?parts = Some ?parts" by (simp add: expand_ipv4_suffix_def)
  from cp(2) have l3: "\<not> length ?parts < 3" by simp
  show "ipv6_int_from_string ?s = Some v"
    unfolding ipv6_int_from_string_def Let_def sp ex using ne l3 cp(1) by simp
  define S where "S = set ''0123456789abcdef''"
  have j: "set ?s \<subseteq> set '':'' \<union> \<Union> (set ` set ?parts)" by (rule set_join)
  have "\<forall>p\<in>set ?parts. set p \<subseteq> S" using cp(3) by (simp only: S_def)
  with j have "set ?s \<subseteq> insert (CHR '':'') S" by auto
  also have "insert (CHR '':'') S = set '':0123456789abcdef''" by (simp add: S_def)
  finally show "set ?s \<subseteq> set '':0123456789abcdef''" .
qed

lemma ipv6_round_trip:
  assumes "wf_addr (IPv6Address v sc)"
  shows "ipv6_address (ip_str (IPv6Address v sc)) = Some (IPv6Address v sc)"
    and "ipv4_address (ip_str (IPv6Address v sc)) = None"
proof -
  let ?js = "join '':'' (compress_hextets (map hex_str v))"
  from assms have wf: "length v = 8" "\<forall>x\<in>set v. x < 65536" by simp_all
  note t = ipv6_text[OF wf]
  have np: "\<forall>c\<in>set ?js. c \<noteq> CHR ''%''" and ns: "CHR ''/'' \<notin> set ?js"
    using t(2) by auto
  show "ipv4_address (ip_str (IPv6Address v sc)) = None"
  proof (cases "ipv4_address (ip_str (IPv6Address v sc))")
    case (Some a)
    from ipv4_no_colon[OF this] t(3) show ?thesis by simp
  qed simp
  show "ipv6_address (ip_str (IPv6Address v sc)) = Some (IPv6Address v sc)"
  proof (cases sc)
    case None
    have "takeWhile (\<lambda>c. c \<noteq> CHR ''%'') ?js = ?js" "dropWhile (\<lambda>c. c \<noteq> CHR ''%'') ?js = []"
      using np by simp_all
    then have "split_scope_id ?js = Some (?js, None)" by (simp add: split_scope_id_def)
    with None ns t(1) show ?thesis by (simp add: ipv6_address_def)
  next
    case (Some s)
    with assms have s: "s \<noteq> []" "CHR ''%'' \<notin> set s" "CHR ''/'' \<notin> set s" by simp_all
    have "takeWhile (\<lambda>c. c \<noteq> CHR ''%'') (?js @ CHR ''%'' # s) = ?js"
      "dropWhile (\<lambda>c. c \<noteq> CHR ''%'') (?js @ CHR ''%'' # s) = CHR ''%'' # s"
      using np by (simp_all add: takeWhile_append2 dropWhile_append2)
    then have "split_scope_id (?js @ CHR ''%'' # s) = Some (?js, Some s)"
      using s by (simp add: split_scope_id_def)
    with Some ns s(3) t(1) show ?thesis by (simp add: ipv6_address_def)
  qed
qed

lemma ip_round_trip: "wf_addr a \<Longrightarrow> ip_address (ip_str a) = Some a"
proof (cases a)
  case (IPv4Address octs)
  assume "wf_addr a"
  with IPv4Address have "length octs = 4" "\<forall>n\<in>set octs. n \<le> 255" by simp_all
  from ipv4_round_trip[OF this] IPv4Address show ?thesis by (simp add: ip_address_def)
next
  case (IPv6Address v sc)
  assume "wf_addr a"
  with IPv6Address have "wf_addr (IPv6Address v sc)" by simp
  from ipv6_round_trip[OF this] IPv6Address show ?thesis by (simp add: ip_address_def)
qed

subsection \<open>The result of a normalization is normalized\<close>

lemma those_parse_bound:
  assumes "those (map parse_hextet ps) = Some v"
  shows "length v = length ps" and "\<forall>x\<in>set v. x < 65536"
proof -
  from those_map_all2[OF assms] have a: "list_all2 (\<lambda>p y. parse_hextet p = Some y) ps v" .
  then show "length v = length ps" by (simp add: list_all2_lengthD)
  show "\<forall>x\<in>set v. x < 65536"
  proof
    fix x assume "x \<in> set v"
    with a obtain p where "parse_hextet p = Some x"
      by (auto simp: list_all2_conv_all_nth in_set_conv_nth)
    then show "x < 65536" by (rule parse_hextet_bound)
  qed
qed

lemma hextets_of_parts_wf:
  assumes "hextets_of_parts parts = Some v"
  shows "length v = 8 \<and> (\<forall>x\<in>set v. x < 65536)"
proof (cases "filter (\<lambda>i. parts ! i = []) [1 ..< length parts - 1]")
  case Nil
  from assms[unfolded hextets_of_parts_def Nil]
  have "length parts = 8 \<and> those (map parse_hextet parts) = Some v"
    by (simp split: if_splits)
  with those_parse_bound[of parts v] show ?thesis by simp
next
  case (Cons k r)
  note c = Cons
  show ?thesis
  proof (cases r)
    case Nil
    define hi where "hi = (if hd parts = [] then k - 1 else k)"
    define lo where
      "lo = (if last parts = [] then length parts - k - 1 - 1 else length parts - k - 1)"
    from assms[unfolded hextets_of_parts_def c Nil]
    have "\<exists>vhi vlo. \<not> 8 < hi + lo + 1 \<and>
        those (map parse_hextet (take hi parts)) = Some vhi \<and>
        those (map parse_hextet (drop (length parts - lo) parts)) = Some vlo \<and>
        v = vhi @ replicate (8 - (hi + lo)) 0 @ vlo"
      unfolding hi_def lo_def
      by (simp add: Let_def split: if_splits option.splits)
    then obtain vhi vlo where b: "\<not> 8 < hi + lo + 1"
      and h: "those (map parse_hextet (take hi parts)) = Some vhi"
      and l: "those (map parse_hextet (drop (length parts - lo) parts)) = Some vlo"
      and v: "v = vhi @ replicate (8 - (hi + lo)) 0 @ vlo"
      by blast
    have "k \<in> set (filter (\<lambda>i. parts ! i = []) [1 ..< length parts - 1])"
      using c by simp
    then have k: "1 \<le> k" "k < length parts - 1" by auto
    have le: "hi \<le> length parts" "lo \<le> length parts" using k by (auto simp: hi_def lo_def)
    from those_parse_bound(1)[OF h] le have lh: "length vhi = hi" by simp
    from those_parse_bound(1)[OF l] le have ll: "length vlo = lo" by simp
    have "length v = 8" using lh ll b by (simp add: v)
    moreover have "\<forall>x\<in>set v. x < 65536"
      using those_parse_bound(2)[OF h] those_parse_bound(2)[OF l] by (auto simp: v)
    ultimately show ?thesis by simp
  next
    case (Cons k' r')
    from assms[unfolded hextets_of_parts_def c Cons] show ?thesis
      by (simp split: if_splits)
  qed
qed

lemma ipv6_int_from_string_wf:
  assumes "ipv6_int_from_string s = Some v"
  shows "length v = 8 \<and> (\<forall>x\<in>set v. x < 65536)"
proof -
  from assms obtain parts where "hextets_of_parts parts = Some v"
    by (auto simp: ipv6_int_from_string_def Let_def split: if_splits option.splits)
  then show ?thesis by (rule hextets_of_parts_wf)
qed

lemma split_scope_id_Some:
  assumes "split_scope_id s = Some (addr, Some sc)"
  shows "sc \<noteq> []" and "CHR ''%'' \<notin> set sc" and "s = addr @ CHR ''%'' # sc"
proof -
  let ?P = "\<lambda>c. c \<noteq> CHR ''%''"
  from assms have r: "dropWhile ?P s \<noteq> []" and a: "addr = takeWhile ?P s"
    and sc: "sc = tl (dropWhile ?P s)" and ne: "tl (dropWhile ?P s) \<noteq> []"
    and np: "CHR ''%'' \<notin> set (tl (dropWhile ?P s))"
    by (auto simp: split_scope_id_def Let_def split: if_splits)
  show "sc \<noteq> []" using sc ne by simp
  show "CHR ''%'' \<notin> set sc" using sc np by simp
  from hd_dropWhile[OF r] have "hd (dropWhile ?P s) = CHR ''%''" by simp
  with r have "dropWhile ?P s = CHR ''%'' # sc"
    by (cases "dropWhile ?P s") (simp_all add: sc)
  with takeWhile_dropWhile_id[of ?P s] a show "s = addr @ CHR ''%'' # sc" by simp
qed

lemma ipv6_address_parts:
  assumes "ipv6_address s = Some a"
  obtains addr sc v where "CHR ''/'' \<notin> set s" and "split_scope_id s = Some (addr, sc)"
    and "ipv6_int_from_string addr = Some v" and "a = IPv6Address v sc"
  using assms by (auto simp: ipv6_address_def split: if_splits option.splits)

lemma ip_address_wf:
  assumes "ip_address s = Some a"
  shows "wf_addr a"
proof (cases "ipv4_address s")
  case (Some octs)
  with assms have "a = IPv4Address octs" by (simp add: ip_address_def)
  with ipv4_address_wf[OF Some] show ?thesis by simp
next
  case None
  with assms have "ipv6_address s = Some a" by (simp add: ip_address_def)
  then obtain addr sc v where ns: "CHR ''/'' \<notin> set s"
    and sp: "split_scope_id s = Some (addr, sc)"
    and v: "ipv6_int_from_string addr = Some v" and a: "a = IPv6Address v sc"
    by (rule ipv6_address_parts)
  note w = ipv6_int_from_string_wf[OF v]
  show ?thesis
  proof (cases sc)
    case None
    with w a show ?thesis by simp
  next
    case (Some x)
    from split_scope_id_Some[OF sp[unfolded Some]] ns
    have "x \<noteq> []" "CHR ''%'' \<notin> set x" "CHR ''/'' \<notin> set x" by auto
    with w a Some show ?thesis by simp
  qed
qed

lemma addr_chars_not_space: "c \<in> set '':.0123456789abcdef'' \<Longrightarrow> \<not> isspace c"
  by (auto simp: isspace_def whitespace_def)

lemma digit_not_space: "c \<in> set digits \<Longrightarrow> \<not> isspace c"
  by (auto simp: isspace_def whitespace_def digits_def)

lemma no_space_strip:
  assumes "\<forall>c\<in>set s. \<not> isspace c"
  shows "strip s = s"
proof (cases "s = []")
  case True
  then show ?thesis by (simp add: strip_def)
next
  case False
  then have "hd s \<in> set s" "last s \<in> set s" by simp_all
  with assms have "\<not> isspace (hd s) \<and> \<not> isspace (last s)" by blast
  then show ?thesis by (intro strip_id) simp
qed

lemma stripped_last: "strip s = s \<Longrightarrow> s \<noteq> [] \<Longrightarrow> \<not> isspace (last s)"
  using strip_ends[of s] by simp

lemma ipv4_text_no_space: "c \<in> set (join ''.'' (map dec_str octs)) \<Longrightarrow> \<not> isspace c"
proof -
  assume "c \<in> set (join ''.'' (map dec_str octs))"
  with set_join[of "''.''" "map dec_str octs"]
  have "c = CHR ''.'' \<or> (\<exists>n. c \<in> set (dec_str n))" by auto
  then show ?thesis
  proof
    assume "c = CHR ''.''"
    then show ?thesis by (simp add: isspace_def whitespace_def)
  next
    assume "\<exists>n. c \<in> set (dec_str n)"
    with dec_str_digits have "c \<in> set digits" by blast
    then show ?thesis by (rule digit_not_space)
  qed
qed

lemma ipv6_text_no_space:
  assumes "length v = 8" and "\<forall>x\<in>set v. x < 65536"
    and "c \<in> set (join '':'' (compress_hextets (map hex_str v)))"
  shows "\<not> isspace c"
proof -
  define S where "S = set '':0123456789abcdef''"
  from ipv6_text(2)[OF assms(1,2)] assms(3) have "c \<in> S" unfolding S_def by blast
  then show ?thesis unfolding S_def by (auto simp: isspace_def whitespace_def)
qed

lemma ip_str_stripped:
  assumes "ip_address s = Some a" and "strip s = s"
  shows "strip (ip_str a) = ip_str a"
proof (cases "ipv4_address s")
  case (Some octs)
  with assms have "a = IPv4Address octs" by (simp add: ip_address_def)
  then show ?thesis using ipv4_text_no_space by (simp add: no_space_strip)
next
  case None
  with assms have "ipv6_address s = Some a" by (simp add: ip_address_def)
  then obtain addr sc v where ns: "CHR ''/'' \<notin> set s"
    and sp: "split_scope_id s = Some (addr, sc)"
    and v: "ipv6_int_from_string addr = Some v" and a: "a = IPv6Address v sc"
    by (rule ipv6_address_parts)
  note w = ipv6_int_from_string_wf[OF v]
  from w have wf: "length v = 8" "\<forall>x\<in>set v. x < 65536" by simp_all
  let ?js = "join '':'' (compress_hextets (map hex_str v))"
  have nsp: "\<forall>c\<in>set ?js. \<not> isspace c" using ipv6_text_no_space[OF wf] by blast
  have jne: "?js \<noteq> []" using ipv6_text(3)[OF wf] by auto
  show ?thesis
  proof (cases sc)
    case None
    with a nsp show ?thesis by (simp add: no_space_strip)
  next
    case (Some x)
    from split_scope_id_Some[OF sp[unfolded Some]]
    have x: "x \<noteq> []" and s: "s = addr @ CHR ''%'' # x" by simp_all
    from s x have "last s = last x" by simp
    moreover have "s \<noteq> []" using s by simp
    ultimately have lx: "\<not> isspace (last x)" using stripped_last[OF assms(2)] by simp
    have "hd ?js \<in> set ?js" using jne by simp
    with nsp have hj: "\<not> isspace (hd ?js)" by blast
    have "hd (?js @ CHR ''%'' # x) = hd ?js" using jne by simp
    moreover have "last (?js @ CHR ''%'' # x) = last x" using x by simp
    ultimately have "strip (?js @ CHR ''%'' # x) = ?js @ CHR ''%'' # x"
      using hj lx by (intro strip_id) simp
    with a Some show ?thesis by simp
  qed
qed

lemma url_not_ip: "is_url v \<Longrightarrow> \<not> is_ip v"
proof -
  assume "is_url v"
  then have "take (length ''http://'') (strip v) = ''http://'' \<or>
             take (length ''https://'') (strip v) = ''https://''"
    by (simp only: is_url_def startswith_def)
  moreover have "CHR ''/'' \<in> set ''http://''" "CHR ''/'' \<in> set ''https://''" by simp_all
  ultimately obtain p where p: "CHR ''/'' \<in> set p" and t: "take (length p) (strip v) = p"
    by blast
  have "set (take (length p) (strip v)) \<subseteq> set (strip v)" by (rule set_take_subset)
  with p t have "CHR ''/'' \<in> set (strip v)" by auto
  then have "ip_address (strip v) = None"
    by (simp add: ip_address_def ipv4_address_def ipv6_address_def)
  then show ?thesis by (simp add: is_ip_def)
qed

lemma domain_not_ip: "is_domain v \<Longrightarrow> \<not> is_ip v"
  by (auto simp: is_domain_def Let_def is_strip split: if_splits)

lemma hash_not_ip: "is_hash v \<Longrightarrow> \<not> is_ip v"
proof -
  assume "is_hash v"
  then obtain n where h: "hash_pattern n (strip v)"
    by (auto simp: is_hash_def)
  have "list_all (\<lambda>c. c \<in> set hexdigits) (strip v)"
  proof (rule ccontr)
    assume "\<not> list_all (\<lambda>c. c \<in> set hexdigits) (strip v)"
    with h have l: "length (strip v) = Suc n" and nl: "last (strip v) = CHR 0x0A"
      by (auto simp: hash_pattern_def)
    from l have "strip v \<noteq> []" by auto
    with strip_ends[of v] have "\<not> isspace (last (strip v))" by simp
    with nl show False by (simp add: isspace_def whitespace_def)
  qed
  then have "\<not> is_ip (strip v)" by (rule hex_string_not_ip)
  then show ?thesis by (simp add: is_strip)
qed

lemma normalize_fixed:
  assumes s: "strip r = r"
    and low: "is_url r \<or> is_domain r \<or> is_hash r \<Longrightarrow> lower r = r"
    and ip: "\<And>a. ip_address r = Some a \<Longrightarrow> ip_str a = r"
  shows "normalize_indicator r = r"
proof -
  have N: "normalize_indicator r =
     (if is_url r \<or> is_domain r \<or> is_hash r then lower r
      else if is_ip r then (case ip_address r of Some a \<Rightarrow> ip_str a | None \<Rightarrow> r)
      else r)"
    by (simp add: normalize_indicator_def Let_def s)
  show ?thesis
  proof (cases "is_url r \<or> is_domain r \<or> is_hash r")
    case True
    with N low show ?thesis by simp
  next
    case False
    show ?thesis
    proof (cases "ip_address r")
      case None
      with N False show ?thesis by simp
    next
      case (Some a)
      with N False ip[OF Some] show ?thesis by simp
    qed
  qed
qed

text \<open>
  Claim C9. Canonicalization is idempotent. The canonicalization of the code is
  \<^verbatim>\<open>normalize_indicator\<close>, which takes the string alone and chooses the rule by its own
  tests (URL, Domain, Hash, IP, in this order), so there is no type to quantify over: for
  every string, normalizing the result of \<^verbatim>\<open>normalize_indicator\<close> again returns it
  unchanged. The strings are those of code points below 256, and the addresses are parsed
  and printed as \<^verbatim>\<open>ipaddress\<close> of CPython 3.11 does.
\<close>

theorem normalize_indicator_idempotent:
  "normalize_indicator (normalize_indicator x) = normalize_indicator x"
proof -
  define s where "s = strip x"
  have ss: "strip s = s" by (simp add: s_def strip_idem)
  have N: "normalize_indicator x =
     (if is_url s \<or> is_domain s \<or> is_hash s then lower s
      else if is_ip s then (case ip_address s of Some a \<Rightarrow> ip_str a | None \<Rightarrow> s)
      else s)"
    unfolding s_def by (simp add: normalize_indicator_def Let_def)
  have isip: "is_ip s \<longleftrightarrow> ip_address s \<noteq> None" by (simp add: is_ip_def ss)
  show ?thesis
  proof (cases "is_url s \<or> is_domain s \<or> is_hash s")
    case True
    then have n: "\<not> is_ip s" using url_not_ip domain_not_ip hash_not_ip by blast
    have "normalize_indicator (lower s) = lower s"
    proof (rule normalize_fixed)
      show "strip (lower s) = lower s" by (simp add: strip_lower ss)
      show "lower (lower s) = lower s" by (rule lower_idem)
      fix a assume "ip_address (lower s) = Some a"
      then have "ip_address s \<noteq> None" using ip_address_lower[of s] by auto
      with n isip show "ip_str a = lower s" by simp
    qed
    with N True show ?thesis by simp
  next
    case False
    show ?thesis
    proof (cases "ip_address s")
      case None
      with N False isip have r: "normalize_indicator x = s" by simp
      have "normalize_indicator s = s"
      proof (rule normalize_fixed)
        show "strip s = s" by (rule ss)
        show "lower s = s" if "is_url s \<or> is_domain s \<or> is_hash s"
          using that False by simp
        fix a assume "ip_address s = Some a"
        with None show "ip_str a = s" by simp
      qed
      with r show ?thesis by simp
    next
      case (Some a)
      with N False isip have r: "normalize_indicator x = ip_str a" by simp
      have rt: "ip_address (ip_str a) = Some a"
        using ip_address_wf[OF Some] by (rule ip_round_trip)
      have st: "strip (ip_str a) = ip_str a" using Some ss by (rule ip_str_stripped)
      have i: "is_ip (ip_str a)" by (simp add: is_ip_def st rt)
      have "normalize_indicator (ip_str a) = ip_str a"
      proof (rule normalize_fixed)
        show "strip (ip_str a) = ip_str a" by (rule st)
        show "lower (ip_str a) = ip_str a"
          if "is_url (ip_str a) \<or> is_domain (ip_str a) \<or> is_hash (ip_str a)"
          using that i url_not_ip domain_not_ip hash_not_ip by blast
        fix b assume "ip_address (ip_str a) = Some b"
        with rt show "ip_str b = ip_str a" by simp
      qed
      with r show ?thesis by simp
    qed
  qed
qed

text \<open>
  On \<^verbatim>\<open>User@Example.COM\<close> the first pass lowers the case and the second changes nothing.
\<close>

theorem normalize_indicator_idempotent_witness:
  "normalize_indicator (normalize_indicator ''User@Example.COM'') = ''user@example.com''"
  using normalize_indicator_idempotent[of "''User@Example.COM''"] by (simp add: ex_norm)

end

